theory Spec2Isabelle
  imports Complex_Main "HOL-Library.Word"
begin

unbundle bit_operations_syntax

section \<open>The live audio bridge of the Gemini service module\<close>

text \<open>
  The development embeds the live-session part of the service module (the block headed
  \<^verbatim>\<open>// --- Live API ---\<close>): the capture callback \<^verbatim>\<open>scriptProcessor.onaudioprocess\<close>,
  the transport callbacks \<^verbatim>\<open>onopen\<close>, \<^verbatim>\<open>onmessage\<close>, \<^verbatim>\<open>onclose\<close>, \<^verbatim>\<open>onerror\<close>,
  and the exported functions \<^verbatim>\<open>connectLive\<close> and \<^verbatim>\<open>closeLiveSession\<close>.

  Numbers. A JavaScript number is a double; its value is modelled as a \<open>real\<close>. Captured
  samples are 32-bit floats; their product with \<open>32768 = 2^15\<close> is exact in double precision,
  so the encoder's arithmetic is the arithmetic of the reals. The sum that advances the
  playback cursor rounds, and is modelled with its rounding (\<open>double_add\<close>).
\<close>

subsection \<open>Frame encoder: the body of \<^verbatim>\<open>onaudioprocess\<close>\<close>

type_synonym sample = real
type_synonym int16 = "16 word"
type_synonym byte = "8 word"

text \<open>
  Storing a number into an \<^verbatim>\<open>Int16Array\<close> element truncates it toward zero and keeps the
  low 16 bits (the ToInt16 conversion of typed arrays): no rounding and no clamping.
\<close>

definition trunc :: "real \<Rightarrow> int" where
  "trunc x = (if 0 \<le> x then \<lfloor>x\<rfloor> else \<lceil>x\<rceil>)"

definition toInt16 :: "real \<Rightarrow> int16" where
  "toInt16 x = word_of_int (trunc x)"

text \<open>
  \<^verbatim>\<open>for (let i = 0; i < l; i++) { int16[i] = inputData[i] * 32768; }\<close>
\<close>

definition pcm_int16 :: "sample list \<Rightarrow> int16 list" where
  "pcm_int16 inputData = map (\<lambda>x. toInt16 (x * 32768)) inputData"

text \<open>
  \<^verbatim>\<open>new Uint8Array(int16.buffer)\<close>: the bytes of the array in the byte order of the
  platform, which is little-endian on every platform that runs a browser.
\<close>

definition uint8_view :: "int16 list \<Rightarrow> byte list" where
  "uint8_view ws = concat (map (\<lambda>w. [ucast w, ucast (drop_bit 8 w)]) ws)"

record pcm_blob =
  data :: string
  mimeType :: string

text \<open>
  The blob handed to \<^verbatim>\<open>sendRealtimeInput\<close>. The base64 function \<^verbatim>\<open>encode\<close> lives in the
  utilities module and is a parameter here.
\<close>

definition pcmBlob :: "(byte list \<Rightarrow> string) \<Rightarrow> sample list \<Rightarrow> pcm_blob" where
  "pcmBlob encode inputData =
     \<lparr>data = encode (uint8_view (pcm_int16 inputData)), mimeType = ''audio/pcm;rate=16000''\<rparr>"

text \<open>
  The conversion as the specification words it: \<open>round (sample * 32767)\<close> clamped to the
  signed 16-bit range. It is compared with \<open>pcm_int16\<close> below.
\<close>

definition spec_int16 :: "sample \<Rightarrow> int16" where
  "spec_int16 x = word_of_int (max (- 32768) (min 32767 (round (x * 32767))))"

text \<open>
  Modelled from the spec: the decoder of the round trip in the testable properties
  ("decoding it back"). The repository's own PCM decoder is in the utilities module, which is
  not among the sources. It reads little-endian signed 16-bit values and divides each by
  \<open>32768\<close>, the scale of the encoder, so one quantization step is \<open>1 / 32768\<close>.
\<close>

fun int16_pairs :: "byte list \<Rightarrow> int16 list" where
  "int16_pairs (lo # hi # bs) = (ucast lo OR push_bit 8 (ucast hi)) # int16_pairs bs"
| "int16_pairs _ = []"

definition decode_frame :: "byte list \<Rightarrow> sample list" where
  "decode_frame bs = map (\<lambda>w. real_of_int (sint w) / 32768) (int16_pairs bs)"

definition quantization_step :: real where
  "quantization_step = 1 / 32768"

subsection \<open>Inbound messages\<close>

datatype blob = Blob (blob_data: "string option")
datatype part = Part (inlineData: "blob option")
datatype content = Content (parts: "part list option")
datatype server_content = ServerContent (modelTurn: "content option")
datatype message = LiveServerMessage (serverContent: "server_content option")

record source_node =
  node_id :: nat
  buffer_duration :: real

subsection \<open>External calls, outcomes and the module state\<close>

text \<open>
  Every call that leaves the module (browser audio API, transport, host callback) is a
  \<open>call\<close>. The module state carries the list of the calls that took effect, in order.
  Objects are named by handles (natural numbers).
\<close>

datatype call =
    NewAudioContext nat nat
  | LiveConnect nat
  | GetUserMedia
  | CreateMediaStreamSource
  | CreateScriptProcessor nat
  | ConnectSource nat
  | ConnectProcessor nat
  | SendRealtimeInput nat pcm_blob
  | CreateBufferSource source_node
  | ConnectDestination source_node
  | SourceStart source_node real
  | SourceStop source_node
  | SessionClose nat
  | TrackStop nat
  | ProcessorDisconnect nat
  | ContextClose nat
  | HostOnOpen
  | HostOnMessage message
  | HostOnClose
  | HostOnError string

datatype error = ApiKeyNotSet | TypeError | DecodeFailed | CallFailed call

datatype outcome = Returned | Threw error

record service =
  ai :: bool
  liveSession :: "nat option"
  inputAudioContext :: "nat option"
  outputAudioContext :: "nat option"
  mediaStream :: "nat list option"
  scriptProcessor :: "nat option"
  nextStartTime :: real
  sources :: "source_node list"
  fresh :: nat
  calls :: "call list"

text \<open>
  The module as loaded: \<^verbatim>\<open>liveSession = null\<close>, \<^verbatim>\<open>nextStartTime = 0\<close>, an empty
  \<^verbatim>\<open>sources\<close> set and every other variable undefined. A media stream is held as the list
  of its tracks; the \<^verbatim>\<open>sources\<close> set as a duplicate-free list in insertion order, the order
  in which \<^verbatim>\<open>forEach\<close> visits a JavaScript set.
\<close>

definition initial :: service where
  "initial = \<lparr>ai = False, liveSession = None, inputAudioContext = None,
     outputAudioContext = None, mediaStream = None, scriptProcessor = None,
     nextStartTime = 0, sources = [], fresh = 0, calls = []\<rparr>"

text \<open>
  An external call may throw. Which calls do is a parameter \<open>throws\<close> of the model, fixed
  for a run; a call that throws has no effect and is not recorded.
\<close>

definition invoke :: "(call \<Rightarrow> bool) \<Rightarrow> call \<Rightarrow> service \<Rightarrow> outcome \<times> service" where
  "invoke throws c s =
     (if throws c then (Threw (CallFailed c), s) else (Returned, s\<lparr>calls := calls s @ [c]\<rparr>))"

text \<open>Statements in sequence: the first exception ends the run and keeps the state reached.\<close>

fun steps :: "(service \<Rightarrow> outcome \<times> service) list \<Rightarrow> service \<Rightarrow> outcome \<times> service" where
  "steps [] s = (Returned, s)"
| "steps (f # fs) s = (case f s of (Returned, s') \<Rightarrow> steps fs s' | (Threw e, s') \<Rightarrow> (Threw e, s'))"

definition assign :: "(service \<Rightarrow> service) \<Rightarrow> service \<Rightarrow> outcome \<times> service" where
  "assign f s = (Returned, f s)"

definition forEach :: "('a \<Rightarrow> service \<Rightarrow> outcome \<times> service) \<Rightarrow> 'a list \<Rightarrow> service \<Rightarrow> outcome \<times> service" where
  "forEach f xs = steps (map f xs)"

subsection \<open>\<^verbatim>\<open>connectLive\<close> and the \<^verbatim>\<open>onopen\<close> callback\<close>

text \<open>
  \<^verbatim>\<open>getAi\<close> throws when the client is not yet built and no API key is configured.
\<close>

definition getAi :: "bool \<Rightarrow> service \<Rightarrow> outcome \<times> service" where
  "getAi api_key s =
     (if \<not> ai s then
        (if \<not> api_key then (Threw ApiKeyNotSet, s) else (Returned, s\<lparr>ai := True\<rparr>))
      else (Returned, s))"

text \<open>
  \<^verbatim>\<open>connectLive\<close> looks at no variable of the session: it builds two audio contexts, stores
  them, starts a connection and returns (the connection promise is not awaited).
\<close>

definition connectLive :: "(call \<Rightarrow> bool) \<Rightarrow> bool \<Rightarrow> service \<Rightarrow> outcome \<times> service" where
  "connectLive throws api_key =
     steps
      [getAi api_key,
       (\<lambda>s. invoke throws (NewAudioContext (fresh s) 16000) s),
       (\<lambda>s. assign (\<lambda>s. s\<lparr>inputAudioContext := Some (fresh s), fresh := Suc (fresh s)\<rparr>) s),
       (\<lambda>s. invoke throws (NewAudioContext (fresh s) 24000) s),
       (\<lambda>s. assign (\<lambda>s. s\<lparr>outputAudioContext := Some (fresh s), fresh := Suc (fresh s)\<rparr>) s),
       (\<lambda>s. invoke throws (LiveConnect (fresh s)) s),
       (\<lambda>s. assign (\<lambda>s. s\<lparr>fresh := Suc (fresh s)\<rparr>) s)]"

text \<open>
  The continuation of \<^verbatim>\<open>onopen\<close> for the connection \<open>session\<close>, with the tracks of the
  stream that \<^verbatim>\<open>getUserMedia\<close> delivers.
\<close>

definition onopen :: "(call \<Rightarrow> bool) \<Rightarrow> nat \<Rightarrow> nat list \<Rightarrow> service \<Rightarrow> outcome \<times> service" where
  "onopen throws session tracks s =
     (let processor = fresh s in
      steps
       [assign (\<lambda>s. s\<lparr>liveSession := Some session\<rparr>),
        invoke throws GetUserMedia,
        assign (\<lambda>s. s\<lparr>mediaStream := Some tracks\<rparr>),
        invoke throws CreateMediaStreamSource,
        invoke throws (CreateScriptProcessor processor),
        assign (\<lambda>s. s\<lparr>scriptProcessor := Some processor, fresh := Suc (fresh s)\<rparr>),
        invoke throws (ConnectSource processor),
        invoke throws (ConnectProcessor processor),
        invoke throws HostOnOpen] s)"

subsection \<open>The capture callback\<close>

text \<open>
  \<^verbatim>\<open>liveSession?.sendRealtimeInput({ media: pcmBlob })\<close>: the send is skipped when the
  handle is null.
\<close>

definition onaudioprocess ::
  "(call \<Rightarrow> bool) \<Rightarrow> (byte list \<Rightarrow> string) \<Rightarrow> sample list \<Rightarrow> service \<Rightarrow> outcome \<times> service" where
  "onaudioprocess throws encode inputData s =
     (case liveSession s of
        None \<Rightarrow> (Returned, s)
      | Some session \<Rightarrow> invoke throws (SendRealtimeInput session (pcmBlob encode inputData)) s)"

subsection \<open>Double-precision sums\<close>

text \<open>
  The sum of two doubles is the exact sum rounded to the nearest double, ties to even.
  \<open>double_round\<close> rounds a real to 53 significant bits: \<open>ulp x\<close> is the spacing of the
  doubles in the binade of \<open>x\<close>, and \<open>round_even\<close> rounds to the nearest integer, ties to
  even. The exponent is not bounded: overflow to infinity and subnormal numbers are left out,
  times in seconds being far from both. A real is a double when rounding leaves it as it is.
\<close>

definition round_even :: "real \<Rightarrow> int" where
  "round_even r =
     (let f = \<lfloor>r\<rfloor> in
      if r - of_int f < 1 / 2 then f
      else if 1 / 2 < r - of_int f then f + 1
      else if even f then f else f + 1)"

definition ulp :: "real \<Rightarrow> real" where
  "ulp x = 2 powr (of_int \<lfloor>log 2 x\<rfloor> - 52)"

definition double_round :: "real \<Rightarrow> real" where
  "double_round x =
     (if x = 0 then 0
      else if 0 < x then of_int (round_even (x / ulp x)) * ulp x
      else - (of_int (round_even (- x / ulp (- x))) * ulp (- x)))"

definition double_add :: "real \<Rightarrow> real \<Rightarrow> real" where
  "double_add a b = double_round (a + b)"

definition is_double :: "real \<Rightarrow> bool" where
  "is_double x \<longleftrightarrow> double_round x = x"

text \<open>A time: a double that is not negative, as the playback clock and the cursor are.\<close>

definition is_time :: "real \<Rightarrow> bool" where
  "is_time t \<longleftrightarrow> is_double t \<and> 0 \<le> t"

subsection \<open>The playback scheduler: \<^verbatim>\<open>onmessage\<close>\<close>

text \<open>
  \<^verbatim>\<open>message.serverContent?.modelTurn?.parts[0]?.inlineData?.data\<close>. An absent
  \<^verbatim>\<open>serverContent\<close> or \<^verbatim>\<open>modelTurn\<close> ends the chain with undefined; a present model turn
  without \<^verbatim>\<open>parts\<close> makes the index expression throw.
\<close>

fun base64Audio :: "message \<Rightarrow> error + string option" where
  "base64Audio (LiveServerMessage None) = Inr None"
| "base64Audio (LiveServerMessage (Some (ServerContent None))) = Inr None"
| "base64Audio (LiveServerMessage (Some (ServerContent (Some (Content None))))) = Inl TypeError"
| "base64Audio (LiveServerMessage (Some (ServerContent (Some (Content (Some [])))))) = Inr None"
| "base64Audio (LiveServerMessage (Some (ServerContent (Some (Content (Some (Part None # ps))))))) = Inr None"
| "base64Audio (LiveServerMessage (Some (ServerContent (Some (Content (Some (Part (Some (Blob d)) # ps))))))) = Inr d"

text \<open>A JavaScript set keeps one copy of an element, in insertion order.\<close>

definition set_add :: "'a \<Rightarrow> 'a list \<Rightarrow> 'a list" where
  "set_add x xs = (if x \<in> set xs then xs else xs @ [x])"

text \<open>
  The statements after the decode: create the source node for a buffer of duration \<open>d\<close>,
  connect it, start it at the cursor, advance the cursor by the double sum
  \<^verbatim>\<open>nextStartTime += audioBuffer.duration\<close>, register the node. Adding the
  \<^verbatim>\<open>ended\<close> listener makes no call; the listener itself is \<open>ended\<close> below.
\<close>

definition schedule :: "(call \<Rightarrow> bool) \<Rightarrow> real \<Rightarrow> service \<Rightarrow> outcome \<times> service" where
  "schedule throws d s =
     (let sourceNode = \<lparr>node_id = fresh s, buffer_duration = d\<rparr> in
      steps
       [invoke throws (CreateBufferSource sourceNode),
        assign (\<lambda>s. s\<lparr>fresh := Suc (fresh s)\<rparr>),
        invoke throws (ConnectDestination sourceNode),
        (\<lambda>s. invoke throws (SourceStart sourceNode (nextStartTime s)) s),
        assign (\<lambda>s. s\<lparr>nextStartTime := double_add (nextStartTime s) d\<rparr>),
        assign (\<lambda>s. s\<lparr>sources := set_add sourceNode (sources s)\<rparr>)] s)"

text \<open>
  The handler for one inbound message. \<open>currentTime\<close> is the reading of
  \<^verbatim>\<open>outputAudioContext.currentTime\<close> when the message arrives. \<open>decodeAudioData\<close> stands
  for \<^verbatim>\<open>decodeAudioData(decode(base64Audio), ...)\<close> of the utilities module: it gives the
  duration of the decoded buffer, or \<open>None\<close> when decoding fails. An empty string is falsy.
  Here the handler runs to its end before the next event is handled.
\<close>

definition onmessage ::
  "(call \<Rightarrow> bool) \<Rightarrow> (string \<Rightarrow> real option) \<Rightarrow> real \<Rightarrow> message \<Rightarrow> service \<Rightarrow> outcome \<times> service" where
  "onmessage throws decodeAudioData currentTime msg s =
     (case invoke throws (HostOnMessage msg) s of
        (Threw e, s') \<Rightarrow> (Threw e, s')
      | (Returned, s') \<Rightarrow>
          (case base64Audio msg of
             Inl e \<Rightarrow> (Threw e, s')
           | Inr None \<Rightarrow> (Returned, s')
           | Inr (Some b64) \<Rightarrow>
               if b64 = [] then (Returned, s')
               else
                 (let s'' = s'\<lparr>nextStartTime := max (nextStartTime s') currentTime\<rparr> in
                  case decodeAudioData b64 of
                    None \<Rightarrow> (Threw DecodeFailed, s'')
                  | Some d \<Rightarrow> schedule throws d s'')))"

text \<open>
  The handler is suspended at the \<^verbatim>\<open>await\<close> of the decode. When other events are handled
  before it resumes, it runs as two halves: \<open>onmessage_arrive\<close> up to the \<^verbatim>\<open>await\<close>, for
  a message whose payload is to be decoded, and \<open>onmessage_resume\<close> from there on, for that
  payload. \<open>awaited\<close> is the payload a message makes the handler wait for, if any.
\<close>

definition awaited :: "message \<Rightarrow> string option" where
  "awaited msg =
     (case base64Audio msg of
        Inl e \<Rightarrow> None
      | Inr None \<Rightarrow> None
      | Inr (Some b64) \<Rightarrow> if b64 = [] then None else Some b64)"

definition onmessage_arrive ::
  "(call \<Rightarrow> bool) \<Rightarrow> real \<Rightarrow> message \<Rightarrow> service \<Rightarrow> outcome \<times> service" where
  "onmessage_arrive throws currentTime msg s =
     (case invoke throws (HostOnMessage msg) s of
        (Threw e, s') \<Rightarrow> (Threw e, s')
      | (Returned, s') \<Rightarrow>
          (case base64Audio msg of
             Inl e \<Rightarrow> (Threw e, s')
           | Inr None \<Rightarrow> (Returned, s')
           | Inr (Some b64) \<Rightarrow>
               if b64 = [] then (Returned, s')
               else (Returned, s'\<lparr>nextStartTime := max (nextStartTime s') currentTime\<rparr>)))"

definition onmessage_resume ::
  "(call \<Rightarrow> bool) \<Rightarrow> (string \<Rightarrow> real option) \<Rightarrow> string \<Rightarrow> service \<Rightarrow> outcome \<times> service" where
  "onmessage_resume throws decodeAudioData b64 s =
     (case decodeAudioData b64 of
        None \<Rightarrow> (Threw DecodeFailed, s)
      | Some d \<Rightarrow> schedule throws d s)"

text \<open>The listener of a node's \<^verbatim>\<open>ended\<close> event.\<close>

definition ended :: "source_node \<Rightarrow> service \<Rightarrow> outcome \<times> service" where
  "ended sourceNode s = (Returned, s\<lparr>sources := removeAll sourceNode (sources s)\<rparr>)"

subsection \<open>\<^verbatim>\<open>onclose\<close>, \<^verbatim>\<open>onerror\<close> and \<^verbatim>\<open>closeLiveSession\<close>\<close>

text \<open>Both transport callbacks are the host's callbacks themselves.\<close>

definition onclose :: "(call \<Rightarrow> bool) \<Rightarrow> service \<Rightarrow> outcome \<times> service" where
  "onclose throws = invoke throws HostOnClose"

definition onerror :: "(call \<Rightarrow> bool) \<Rightarrow> string \<Rightarrow> service \<Rightarrow> outcome \<times> service" where
  "onerror throws e = invoke throws (HostOnError e)"

text \<open>
  \<^verbatim>\<open>closeLiveSession\<close>: nine statements in sequence, with no handler for exceptions.
  A \<^verbatim>\<open>?.\<close> skips the call on a null or undefined variable.
\<close>

definition optionally :: "'a option \<Rightarrow> ('a \<Rightarrow> service \<Rightarrow> outcome \<times> service) \<Rightarrow> service \<Rightarrow> outcome \<times> service" where
  "optionally v f s = (case v of None \<Rightarrow> (Returned, s) | Some x \<Rightarrow> f x s)"

definition closeLiveSession :: "(call \<Rightarrow> bool) \<Rightarrow> service \<Rightarrow> outcome \<times> service" where
  "closeLiveSession throws =
     steps
      [(\<lambda>s. optionally (liveSession s) (\<lambda>session. invoke throws (SessionClose session)) s),
       assign (\<lambda>s. s\<lparr>liveSession := None\<rparr>),
       (\<lambda>s. optionally (mediaStream s) (forEach (\<lambda>track. invoke throws (TrackStop track))) s),
       (\<lambda>s. optionally (scriptProcessor s) (\<lambda>p. invoke throws (ProcessorDisconnect p)) s),
       (\<lambda>s. optionally (inputAudioContext s) (\<lambda>c. invoke throws (ContextClose c)) s),
       (\<lambda>s. optionally (outputAudioContext s) (\<lambda>c. invoke throws (ContextClose c)) s),
       (\<lambda>s. forEach (\<lambda>source. invoke throws (SourceStop source)) (sources s) s),
       assign (\<lambda>s. s\<lparr>sources := []\<rparr>),
       assign (\<lambda>s. s\<lparr>nextStartTime := 0\<rparr>)]"

subsection \<open>Events\<close>

text \<open>
  The module is driven by events: the two exported functions, called by the host, and the
  callbacks, called by the transport, the capture node and the playback nodes. An exception
  that leaves a callback is not handled by the module; the state it reached stays. An inbound
  message is one event \<open>OnMessage\<close> when its handler runs to the end at once, and two events
  \<open>OnMessageArrive\<close> and \<open>OnMessageResume\<close>, with any events between them, when the handler
  waits for the decode.
\<close>

datatype event =
    ConnectLive bool
  | OnOpen nat "nat list"
  | OnAudioProcess "sample list"
  | OnMessage real message
  | OnMessageArrive real message
  | OnMessageResume string
  | OnEnded source_node
  | OnClose
  | OnError string
  | CloseLiveSession

fun fire ::
  "(call \<Rightarrow> bool) \<Rightarrow> (byte list \<Rightarrow> string) \<Rightarrow> (string \<Rightarrow> real option) \<Rightarrow> event \<Rightarrow> service \<Rightarrow> service" where
  "fire throws encode decodeAudioData (ConnectLive api_key) s = snd (connectLive throws api_key s)"
| "fire throws encode decodeAudioData (OnOpen session tracks) s = snd (onopen throws session tracks s)"
| "fire throws encode decodeAudioData (OnAudioProcess inputData) s = snd (onaudioprocess throws encode inputData s)"
| "fire throws encode decodeAudioData (OnMessage currentTime msg) s = snd (onmessage throws decodeAudioData currentTime msg s)"
| "fire throws encode decodeAudioData (OnMessageArrive currentTime msg) s = snd (onmessage_arrive throws currentTime msg s)"
| "fire throws encode decodeAudioData (OnMessageResume b64) s = snd (onmessage_resume throws decodeAudioData b64 s)"
| "fire throws encode decodeAudioData (OnEnded sourceNode) s = snd (ended sourceNode s)"
| "fire throws encode decodeAudioData OnClose s = snd (onclose throws s)"
| "fire throws encode decodeAudioData (OnError e) s = snd (onerror throws e s)"
| "fire throws encode decodeAudioData CloseLiveSession s = snd (closeLiveSession throws s)"

fun run ::
  "(call \<Rightarrow> bool) \<Rightarrow> (byte list \<Rightarrow> string) \<Rightarrow> (string \<Rightarrow> real option) \<Rightarrow> event list \<Rightarrow> service \<Rightarrow> service" where
  "run throws encode decodeAudioData [] s = s"
| "run throws encode decodeAudioData (e # es) s =
     run throws encode decodeAudioData es (fire throws encode decodeAudioData e s)"

subsection \<open>Observations on a state\<close>

text \<open>
  The segments started, as pairs of start time and duration, in the order of the calls; the
  frames sent; the host callbacks made.
\<close>

fun scheduled :: "call list \<Rightarrow> (real \<times> real) list" where
  "scheduled [] = []"
| "scheduled (SourceStart sourceNode startAt # cs) = (startAt, buffer_duration sourceNode) # scheduled cs"
| "scheduled (c # cs) = scheduled cs"

fun is_send :: "call \<Rightarrow> bool" where
  "is_send (SendRealtimeInput session blob) = True"
| "is_send c = False"

fun is_host :: "call \<Rightarrow> bool" where
  "is_host HostOnOpen = True"
| "is_host (HostOnMessage msg) = True"
| "is_host HostOnClose = True"
| "is_host (HostOnError e) = True"
| "is_host c = False"

fun is_open :: "event \<Rightarrow> bool" where
  "is_open (OnOpen session tracks) = True"
| "is_open e = False"

definition carries_audio :: "message \<Rightarrow> bool" where
  "carries_audio msg = (case base64Audio msg of Inr (Some b64) \<Rightarrow> b64 \<noteq> [] | _ \<Rightarrow> False)"

text \<open>
  The calls with which a teardown releases what a state holds, in the order of the statements
  of \<^verbatim>\<open>closeLiveSession\<close>: close the transport, stop each capture track, disconnect
  the processing node, close the input and the output context, stop each registered source.
\<close>

definition releases :: "service \<Rightarrow> call list" where
  "releases s =
     (case liveSession s of None \<Rightarrow> [] | Some session \<Rightarrow> [SessionClose session]) @
     (case mediaStream s of None \<Rightarrow> [] | Some tracks \<Rightarrow> map TrackStop tracks) @
     (case scriptProcessor s of None \<Rightarrow> [] | Some p \<Rightarrow> [ProcessorDisconnect p]) @
     (case inputAudioContext s of None \<Rightarrow> [] | Some c \<Rightarrow> [ContextClose c]) @
     (case outputAudioContext s of None \<Rightarrow> [] | Some c \<Rightarrow> [ContextClose c]) @
     map SourceStop (sources s)"

text \<open>
  A state is idle when no session handle is held, no segment is registered and the cursor is
  at zero: the state of the module as loaded and the state a completed teardown leaves.
  \<open>variables\<close> forgets the record of calls and keeps the variables of the module.
\<close>

definition idle :: "service \<Rightarrow> bool" where
  "idle s \<longleftrightarrow> liveSession s = None \<and> sources s = [] \<and> nextStartTime s = 0"

definition variables :: "service \<Rightarrow> service" where
  "variables s = s\<lparr>calls := []\<rparr>"


text \<open>An event reads the playback clock when a message arrives; the reading is a time.\<close>

fun clock_ok :: "event \<Rightarrow> bool" where
  "clock_ok (OnMessage currentTime msg) = is_time currentTime"
| "clock_ok (OnMessageArrive currentTime msg) = is_time currentTime"
| "clock_ok e = True"

text \<open>
  Predicates on lists of segments used in the proofs: \<open>admissible n segs\<close> says that the
  segments start at times no earlier than \<open>n\<close>, have non-negative durations and each starts
  no earlier than the cursor its predecessor left; \<open>advance n segs n'\<close> describes one event
  that moves the cursor from \<open>n\<close> to \<open>n'\<close> and starts the segments \<open>segs\<close>.
\<close>

fun admissible :: "real \<Rightarrow> (real \<times> real) list \<Rightarrow> bool" where
  "admissible n [] = True"
| "admissible n ((t, d) # segs) =
     (n \<le> t \<and> is_double t \<and> 0 \<le> t \<and> 0 \<le> d \<and> admissible (double_add t d) segs)"

definition advance :: "real \<Rightarrow> (real \<times> real) list \<Rightarrow> real \<Rightarrow> bool" where
  "advance n segs n' \<longleftrightarrow>
     (segs = [] \<and> n \<le> n') \<or>
     (\<exists>t d. segs = [(t, d)] \<and> n \<le> t \<and> is_double t \<and> 0 \<le> t \<and> 0 \<le> d \<and> n' = double_add t d)"

subsection \<open>Concrete environments and states\<close>

text \<open>
  An environment in which no call throws and one in which closing the transport throws; a
  decoder and an encoder to run examples with; the state after a session has opened, the state
  after two audio messages have been scheduled in it, and the state after its teardown.
  \<open>tenths_decode\<close> gives buffers whose duration is a number of tenths of a second, as a
  double; \<open>burst_segments\<close> are the segments started when three messages of 0.1 s, 0.7 s and
  0.1 s arrive in the open session at clock time zero. \<open>overtaken_segments\<close> are the segments
  started when a second message arrives while the first waits for its decode.
\<close>

definition no_faults :: "call \<Rightarrow> bool" where
  "no_faults c = False"

definition demo_decode :: "string \<Rightarrow> real option" where
  "demo_decode b64 = Some (real (length b64) / 4)"

definition demo_encode :: "byte list \<Rightarrow> string" where
  "demo_encode bs = map (\<lambda>b. char_of (unat b)) bs"

definition audio_message :: "string \<Rightarrow> message" where
  "audio_message b64 =
     LiveServerMessage (Some (ServerContent (Some (Content (Some [Part (Some (Blob (Some b64)))])))))"

definition opened :: service where
  "opened = run no_faults demo_encode demo_decode [ConnectLive True, OnOpen 2 [7]] initial"

definition playing :: service where
  "playing = run no_faults demo_encode demo_decode
     [OnMessage 1 (audio_message ''AAAA''), OnMessage (3 / 2) (audio_message ''AAAAAAAA'')] opened"

definition session_close_throws :: "call \<Rightarrow> bool" where
  "session_close_throws c = (case c of SessionClose session \<Rightarrow> True | _ \<Rightarrow> False)"

definition tenths_decode :: "string \<Rightarrow> real option" where
  "tenths_decode b64 = Some (double_round (real (length b64) / 10))"

definition burst_segments :: "(real \<times> real) list" where
  "burst_segments =
     scheduled (drop (length (calls opened)) (calls (run no_faults demo_encode tenths_decode
       [OnMessage 0 (audio_message ''A''), OnMessage 0 (audio_message ''AAAAAAA''),
        OnMessage 0 (audio_message ''A'')] opened)))"

definition overtaken_segments :: "(real \<times> real) list" where
  "overtaken_segments =
     scheduled (drop (length (calls opened)) (calls (run no_faults demo_encode demo_decode
       [OnMessageArrive 1 (audio_message ''AAAA''), OnMessageArrive (3 / 2) (audio_message ''AAAAAAAA''),
        OnMessageResume ''AAAA''] opened)))"


section \<open>Properties of the frame encoder\<close>

lemma trunc_bounds:
  assumes "- 32768 \<le> y" "y < 32768"
  shows "- 32768 \<le> trunc y \<and> trunc y < 32768"
  using assms unfolding trunc_def
  by (auto simp: le_floor_iff ceiling_less_iff floor_less_iff le_ceiling_iff)

lemma sint_toInt16:
  assumes "- 32768 \<le> y" "y < 32768"
  shows "sint (toInt16 y) = trunc y"
proof -
  from trunc_bounds [OF assms]
  have "- (2 ^ (16 - 1)) \<le> trunc y" "trunc y < 2 ^ (16 - 1)" by simp_all
  then have "signed_take_bit (16 - 1) (trunc y) = trunc y"
    by (rule signed_take_bit_int_eq_self)
  then show ?thesis by (simp add: toInt16_def sint_sbintrunc')
qed

lemma trunc_error: "\<bar>real_of_int (trunc y) - y\<bar> < 1"
  unfolding trunc_def by (auto; linarith)

lemma length_uint8_view: "length (uint8_view ws) = 2 * length ws"
  by (induction ws) (simp_all add: uint8_view_def)

lemma uint8_view_nth:
  "i < length ws \<Longrightarrow>
     uint8_view ws ! (2 * i) = ucast (ws ! i) \<and>
     uint8_view ws ! (2 * i + 1) = ucast (drop_bit 8 (ws ! i))"
proof (induction ws arbitrary: i)
  case Nil
  then show ?case by simp
next
  case (Cons w ws)
  show ?case
  proof (cases i)
    case 0
    then show ?thesis by (simp add: uint8_view_def)
  next
    case (Suc j)
    with Cons.prems have "j < length ws" by simp
    from Cons.IH [OF this] Suc show ?thesis by (simp add: uint8_view_def)
  qed
qed

lemma little_endian_pair:
  fixes w :: int16
  shows "uint (ucast w :: byte) + 256 * uint (ucast (drop_bit 8 w) :: byte) = uint w"
proof -
  have "uint w < 65536" using uint_bounded [of w] by simp
  then have lt: "uint w div 256 < 256" by simp
  have nonneg: "0 \<le> uint w div 256" by (simp add: div_int_pos_iff)
  from nonneg lt have hi: "(uint w div 256) mod 256 = uint w div 256"
    by (rule mod_pos_pos_trivial)
  have "uint (ucast w :: byte) = uint w mod 256"
    by (simp add: unsigned_ucast_eq take_bit_eq_mod)
  moreover have "uint (ucast (drop_bit 8 w) :: byte) = (uint w div 256) mod 256"
    by (simp add: unsigned_ucast_eq unsigned_drop_bit_eq take_bit_eq_mod drop_bit_eq_div
        uint_div_distrib)
  ultimately show ?thesis using hi by simp
qed

lemma reassemble_pair:
  fixes w :: int16
  shows "ucast (ucast w :: byte) OR push_bit 8 (ucast (ucast (drop_bit 8 w) :: byte)) = w"
  by (rule bit_word_eqI) (auto simp: bit_simps)

lemma int16_pairs_uint8_view: "int16_pairs (uint8_view ws) = ws"
  by (induction ws) (simp_all add: uint8_view_def reassemble_pair)

lemma decode_frame_encode:
  "decode_frame (uint8_view (pcm_int16 xs)) = map (\<lambda>x. real_of_int (sint (toInt16 (x * 32768))) / 32768) xs"
  by (simp add: decode_frame_def int16_pairs_uint8_view pcm_int16_def del: of_int_sint)

lemma frame_byte_length: "length (uint8_view (pcm_int16 inputData)) = 2 * length inputData"
  by (simp add: length_uint8_view pcm_int16_def)

lemma roundtrip_in_range:
  assumes "i < length inputData" "- 1 \<le> inputData ! i" "inputData ! i < 1"
  shows "\<bar>decode_frame (uint8_view (pcm_int16 inputData)) ! i - inputData ! i\<bar> < quantization_step"
proof -
  let ?x = "inputData ! i"
  have r: "- 32768 \<le> ?x * 32768" "?x * 32768 < 32768" using assms by simp_all
  define t where "t = real_of_int (trunc (?x * 32768))"
  have d: "decode_frame (uint8_view (pcm_int16 inputData)) ! i = t / 32768"
    using assms(1) by (simp add: t_def decode_frame_encode sint_toInt16 [OF r] del: of_int_sint)
  have "\<bar>t - ?x * 32768\<bar> < 1" unfolding t_def by (rule trunc_error)
  then have "\<bar>t - ?x * 32768\<bar> / 32768 < 1 / 32768" by simp
  moreover have "t / 32768 - ?x = (t - ?x * 32768) / 32768" by (simp add: diff_divide_distrib)
  then have "\<bar>t / 32768 - ?x\<bar> = \<bar>t - ?x * 32768\<bar> / 32768" by (simp only: abs_divide)
  ultimately have e: "\<bar>t / 32768 - ?x\<bar> < 1 / 32768" by (simp only:)
  show ?thesis unfolding quantization_step_def d by (rule e)
qed

text \<open>
  Claim C2, as the code has it. For every buffer of samples in the half-open range
  \<open>-1 \<le> x < 1\<close> the encoder produces as many 16-bit values as there are samples, in the
  order of the samples; each value is the sample times \<open>32768\<close> truncated toward zero (not
  \<open>round (sample * 32767)\<close>); the byte buffer has two bytes per sample, low byte first. A
  chunk of 4096 samples all equal to \<open>0.5\<close> encodes to 4096 values each equal to \<open>16384\<close>.
  Samples outside the range, the full-scale sample \<open>1\<close> among them, are not covered.
\<close>

theorem frame_encoder_truncates:
  assumes "\<forall>x \<in> set inputData. - 1 \<le> x \<and> x < 1"
  shows "length (pcm_int16 inputData) = length inputData \<and>
         length (uint8_view (pcm_int16 inputData)) = 2 * length inputData \<and>
         (\<forall>i < length inputData.
            sint (pcm_int16 inputData ! i) = trunc (inputData ! i * 32768) \<and>
            uint (uint8_view (pcm_int16 inputData) ! (2 * i)) +
              256 * uint (uint8_view (pcm_int16 inputData) ! (2 * i + 1)) =
              uint (pcm_int16 inputData ! i)) \<and>
         pcm_int16 (replicate 4096 (1 / 2)) = replicate 4096 16384"
proof (intro conjI allI impI)
  show "length (pcm_int16 inputData) = length inputData" by (simp add: pcm_int16_def)
  show "length (uint8_view (pcm_int16 inputData)) = 2 * length inputData" by (rule frame_byte_length)
  show "pcm_int16 (replicate 4096 (1 / 2)) = replicate 4096 16384"
    by (simp add: pcm_int16_def toInt16_def trunc_def)
next
  fix i assume i: "i < length inputData"
  then have "inputData ! i \<in> set inputData" by simp
  with assms have "- 1 \<le> inputData ! i" "inputData ! i < 1" by auto
  then have r: "- 32768 \<le> inputData ! i * 32768" "inputData ! i * 32768 < 32768" by simp_all
  show "sint (pcm_int16 inputData ! i) = trunc (inputData ! i * 32768)"
    using i by (simp add: pcm_int16_def sint_toInt16 [OF r])
  have "i < length (pcm_int16 inputData)" using i by (simp add: pcm_int16_def)
  from uint8_view_nth [OF this]
  show "uint (uint8_view (pcm_int16 inputData) ! (2 * i)) +
          256 * uint (uint8_view (pcm_int16 inputData) ! (2 * i + 1)) =
          uint (pcm_int16 inputData ! i)"
    by (simp add: little_endian_pair)
qed

text \<open>The theorem at the buffer \<open>[0.5, -0.25]\<close>.\<close>

theorem frame_encoder_truncates_witness:
  "sint (pcm_int16 [1 / 2, - 1 / 4] ! 0) = 16384 \<and>
   sint (pcm_int16 [1 / 2, - 1 / 4] ! 1) = - 8192 \<and>
   length (uint8_view (pcm_int16 [1 / 2, - 1 / 4])) = 4"
proof -
  have h: "\<forall>x \<in> set [1 / 2, - 1 / 4 :: real]. - 1 \<le> x \<and> x < 1" by simp
  from frame_encoder_truncates [OF h] show ?thesis
    by (simp add: trunc_def)
qed

text \<open>
  Claim C2 as stated fails: the chunk of 4096 samples equal to \<open>0.5\<close> does not encode to
  values equal to \<open>16383\<close>, and at the sample \<open>-0.5\<close> the encoder's value \<open>-16384\<close> is
  not the value \<open>-16383\<close> of \<open>round (sample * 32767)\<close>.
\<close>

theorem frame_encoder_half_counterexample:
  "pcm_int16 (replicate 4096 (1 / 2)) \<noteq> replicate 4096 16383 \<and>
   pcm_int16 [- 1 / 2] \<noteq> [spec_int16 (- 1 / 2)]"
  by (simp add: pcm_int16_def toInt16_def trunc_def spec_int16_def round_def)

text \<open>
  Claim C6 fails at a full-scale sample. The chunk \<open>[1]\<close> is stored as \<open>32768\<close>, which
  the 16-bit store wraps to \<open>-32768\<close> (bytes \<open>00 80\<close>); decoding gives \<open>-1\<close>, which is
  \<open>2\<close> away from the sample and not within one quantization step. The byte length is
  \<open>2 * L\<close> for every chunk (\<open>frame_byte_length\<close>) and the round trip is within one step
  for samples in \<open>-1 \<le> x < 1\<close> (\<open>roundtrip_in_range\<close>).
\<close>

theorem roundtrip_full_scale_wraps:
  "sint (pcm_int16 [1] ! 0) = - 32768 \<and>
   uint8_view (pcm_int16 [1]) = [0, 128] \<and>
   decode_frame (uint8_view (pcm_int16 [1])) = [- 1] \<and>
   \<not> \<bar>decode_frame (uint8_view (pcm_int16 [1])) ! 0 - 1\<bar> \<le> quantization_step"
  by (simp add: pcm_int16_def toInt16_def trunc_def uint8_view_def decode_frame_def
      quantization_step_def)

section \<open>Properties of the double-precision sum\<close>

lemma round_even_of_int: "round_even (of_int n) = n"
  by (simp add: round_even_def)

lemma round_even_bounds: "\<lfloor>r\<rfloor> \<le> round_even r \<and> round_even r \<le> \<lfloor>r\<rfloor> + 1"
  by (simp add: round_even_def Let_def)

lemma round_even_mono:
  assumes "r \<le> r'"
  shows "round_even r \<le> round_even r'"
proof (cases "\<lfloor>r\<rfloor> = \<lfloor>r'\<rfloor>")
  case True
  with assms show ?thesis by (auto simp: round_even_def Let_def)
next
  case False
  with assms have "\<lfloor>r\<rfloor> < \<lfloor>r'\<rfloor>" using floor_mono [OF assms] by linarith
  with round_even_bounds [of r] round_even_bounds [of r'] show ?thesis by linarith
qed

lemma ulp_pos: "0 < ulp x"
  by (simp add: ulp_def)

lemma ulp_eq:
  assumes "2 powr of_int e \<le> x" "x < 2 powr (of_int e + 1)"
  shows "ulp x = 2 powr (of_int e - 52)"
proof -
  have "(0::real) < 2 powr of_int e" by simp
  with assms(1) have "0 < x" by linarith
  then have "\<lfloor>log 2 x\<rfloor> = e" using assms by (simp add: floor_log_eq_powr_iff)
  then show ?thesis by (simp add: ulp_def)
qed

lemma binade:
  assumes "0 < x"
  shows "2 powr of_int \<lfloor>log 2 x\<rfloor> \<le> x \<and> x < 2 powr (of_int \<lfloor>log 2 x\<rfloor> + 1)"
  using floor_log_eq_powr_iff [OF assms, of 2 "\<lfloor>log 2 x\<rfloor>"] by simp

lemma scaled_range:
  assumes "0 < x"
  shows "2 ^ 52 \<le> x / ulp x \<and> x / ulp x < 2 ^ 53"
proof -
  let ?e = "of_int \<lfloor>log 2 x\<rfloor> :: real"
  from binade [OF assms] have b: "2 powr ?e \<le> x" "x < 2 powr (?e + 1)" by simp_all
  have u: "ulp x * 2 ^ 52 = 2 powr ?e"
    by (simp add: ulp_def powr_diff)
  have u': "ulp x * 2 ^ 53 = 2 powr (?e + 1)"
    by (simp add: ulp_def powr_diff powr_add)
  from b u u' ulp_pos [of x] show ?thesis
    by (simp add: pos_le_divide_eq pos_divide_less_eq mult.commute)
qed

lemma scaled_round_range:
  assumes "0 < x"
  shows "2 ^ 52 \<le> round_even (x / ulp x) \<and> round_even (x / ulp x) \<le> 2 ^ 53"
proof -
  from scaled_range [OF assms] have "of_int (2 ^ 52) \<le> x / ulp x" "x / ulp x \<le> of_int (2 ^ 53)"
    by simp_all
  from round_even_mono [OF this(1)] round_even_mono [OF this(2)] show ?thesis
    by (simp only: round_even_of_int) 
qed

lemma double_round_pos_eq: "0 < x \<Longrightarrow> double_round x = of_int (round_even (x / ulp x)) * ulp x"
  by (simp add: double_round_def)

lemma double_round_binade:
  assumes "0 < x"
  shows "2 powr of_int \<lfloor>log 2 x\<rfloor> \<le> double_round x \<and>
         double_round x \<le> 2 powr (of_int \<lfloor>log 2 x\<rfloor> + 1)"
proof -
  let ?e = "of_int \<lfloor>log 2 x\<rfloor> :: real"
  let ?n = "round_even (x / ulp x)"
  have u: "2 ^ 52 * ulp x = 2 powr ?e" by (simp add: ulp_def powr_diff)
  have u': "2 ^ 53 * ulp x = 2 powr (?e + 1)" by (simp add: ulp_def powr_diff powr_add)
  from scaled_round_range [OF assms] have "(2 ^ 52 :: real) \<le> of_int ?n" "of_int ?n \<le> (2 ^ 53 :: real)"
    by (metis of_int_le_iff of_int_numeral of_int_power)+
  then have "2 ^ 52 * ulp x \<le> of_int ?n * ulp x" "of_int ?n * ulp x \<le> 2 ^ 53 * ulp x"
    using ulp_pos [of x] by (simp_all add: mult_right_mono)
  with u u' show ?thesis by (simp add: double_round_pos_eq [OF assms])
qed

lemma double_round_gt_zero:
  assumes "0 < x"
  shows "0 < double_round x"
proof -
  have "(0::real) < 2 powr of_int \<lfloor>log 2 x\<rfloor>" by simp
  with double_round_binade [OF assms] show ?thesis by linarith
qed

lemma double_round_nonneg: "0 \<le> x \<Longrightarrow> 0 \<le> double_round x"
  using double_round_gt_zero [of x] by (cases "x = 0") (auto simp: double_round_def)

lemma double_round_mono_pos:
  assumes "0 < x" "x \<le> y"
  shows "double_round x \<le> double_round y"
proof -
  from assms have y: "0 < y" by simp
  have le: "\<lfloor>log 2 x\<rfloor> \<le> \<lfloor>log 2 y\<rfloor>"
    using assms by (intro floor_mono) simp
  show ?thesis
  proof (cases "\<lfloor>log 2 x\<rfloor> = \<lfloor>log 2 y\<rfloor>")
    case True
    then have u: "ulp x = ulp y" by (simp add: ulp_def)
    have "x / ulp y \<le> y / ulp y" using assms(2) ulp_pos [of y] by (simp add: divide_right_mono)
    from round_even_mono [OF this]
    have "of_int (round_even (x / ulp y)) * ulp y \<le> of_int (round_even (y / ulp y)) * ulp y"
      using ulp_pos [of y] by (simp add: mult_right_mono)
    then show ?thesis by (simp add: double_round_pos_eq assms(1) y u)
  next
    case False
    with le have "\<lfloor>log 2 x\<rfloor> + 1 \<le> \<lfloor>log 2 y\<rfloor>" by simp
    then have "(of_int \<lfloor>log 2 x\<rfloor> :: real) + 1 \<le> of_int \<lfloor>log 2 y\<rfloor>" by linarith
    then have "(2::real) powr (of_int \<lfloor>log 2 x\<rfloor> + 1) \<le> 2 powr of_int \<lfloor>log 2 y\<rfloor>" by simp
    with double_round_binade [OF assms(1)] double_round_binade [OF y] show ?thesis by linarith
  qed
qed

lemma double_round_mono:
  assumes "0 \<le> x" "x \<le> y"
  shows "double_round x \<le> double_round y"
proof (cases "x = 0")
  case True
  with assms double_round_nonneg [of y] show ?thesis by (simp add: double_round_def)
next
  case False
  with assms have "0 < x" by simp
  from double_round_mono_pos [OF this assms(2)] show ?thesis .
qed

lemma double_round_at:
  assumes "2 powr of_int e \<le> x" "x < 2 powr (of_int e + 1)"
  shows "double_round x = of_int (round_even (x / 2 powr (of_int e - 52))) * 2 powr (of_int e - 52)"
proof -
  have "(0::real) < 2 powr of_int e" by simp
  with assms(1) have "0 < x" by linarith
  with ulp_eq [OF assms] show ?thesis by (simp add: double_round_pos_eq)
qed

lemma pow52_scale: "2 ^ 52 * 2 powr (of_int e - 52) = (2::real) powr of_int e"
  by (simp add: powr_diff)

lemma pow53_scale: "2 ^ 53 * 2 powr (of_int e - 52) = (2::real) powr (of_int e + 1)"
  by (simp add: powr_diff powr_add)

lemma double_round_idem_pos:
  assumes "0 < x"
  shows "double_round (double_round x) = double_round x"
proof -
  define e where "e = \<lfloor>log 2 x\<rfloor>"
  define n where "n = round_even (x / ulp x)"
  define u :: real where "u = 2 powr (of_int e - 52)"
  have ux: "ulp x = u" by (simp add: u_def ulp_def e_def)
  have v: "double_round x = of_int n * u" by (simp add: double_round_pos_eq assms n_def ux)
  have upos: "0 < u" by (simp add: u_def)
  from scaled_round_range [OF assms] have n: "2 ^ 52 \<le> n" "n \<le> 2 ^ 53" by (simp_all add: n_def)
  have lo: "2 powr of_int e \<le> of_int n * u"
    using double_round_binade [OF assms] by (simp add: v e_def)
  show ?thesis
  proof (cases "n = 2 ^ 53")
    case True
    then have nr: "(of_int n :: real) = 2 ^ 53" by simp
    have top: "of_int n * u = 2 powr of_int (e + 1)"
      unfolding nr u_def by (simp only: pow53_scale of_int_add of_int_1)
    have "2 powr of_int (e + 1) \<le> of_int n * u" "of_int n * u < 2 powr (of_int (e + 1) + 1)"
      unfolding top by simp_all
    then have "double_round (of_int n * u) =
        of_int (round_even (of_int n * u / 2 powr (of_int (e + 1) - 52))) * 2 powr (of_int (e + 1) - 52)"
      by (rule double_round_at)
    moreover have "of_int n * u = of_int (2 ^ 52) * 2 powr (of_int (e + 1) - 52)"
      unfolding top by (simp only: of_int_power of_int_numeral pow52_scale)
    moreover have "of_int (2 ^ 52) * 2 powr (of_int (e + 1) - 52) / 2 powr (of_int (e + 1) - 52) =
        (of_int (2 ^ 52) :: real)"
      by simp
    ultimately have "double_round (of_int n * u) = of_int n * u"
      by (simp only: round_even_of_int)
    then show ?thesis by (simp only: v)
  next
    case False
    with n have "n < 2 ^ 53" by simp
    then have "(of_int n :: real) < of_int (2 ^ 53)" by (simp only: of_int_less_iff)
    then have "(of_int n :: real) < 2 ^ 53" by simp
    then have "of_int n * u < 2 ^ 53 * u" using upos by simp
    then have hi: "of_int n * u < 2 powr (of_int e + 1)"
      unfolding u_def by (simp only: pow53_scale)
    have "double_round (of_int n * u) =
        of_int (round_even (of_int n * u / 2 powr (of_int e - 52))) * 2 powr (of_int e - 52)"
      by (rule double_round_at [OF lo hi])
    moreover have "of_int n * u / 2 powr (of_int e - 52) = of_int n" by (simp add: u_def)
    ultimately have "double_round (of_int n * u) = of_int n * u"
      by (simp only: round_even_of_int u_def)
    then show ?thesis by (simp only: v)
  qed
qed

lemma is_double_round: "0 \<le> x \<Longrightarrow> is_double (double_round x)"
  using double_round_idem_pos [of x] by (cases "x = 0") (auto simp: is_double_def double_round_def)

lemma is_double_zero: "is_double 0"
  by (simp add: is_double_def double_round_def)

lemma is_double_max: "is_double a \<Longrightarrow> is_double b \<Longrightarrow> is_double (max a b)"
  by (simp add: max_def)

lemma double_add_ge:
  assumes "is_double s" "0 \<le> s" "0 \<le> d"
  shows "s \<le> double_add s d \<and> is_double (double_add s d) \<and> 0 \<le> double_add s d"
proof -
  have "double_round s \<le> double_round (s + d)" using assms by (intro double_round_mono) simp_all
  with assms(1) have "s \<le> double_add s d" by (simp add: is_double_def double_add_def)
  moreover have "is_double (double_add s d)" using assms by (simp add: double_add_def is_double_round)
  ultimately show ?thesis using assms(2) by simp
qed

text \<open>Values of the rounding used in the examples.\<close>

lemma double_round_2: "double_round 2 = 2"
  using double_round_at [of 1 2] by (simp add: round_even_def powr_neg_numeral)

lemma double_round_4: "double_round 4 = 4"
  using double_round_at [of 2 4] by (simp add: round_even_def powr_neg_numeral)

lemma is_time_1: "is_time 1"
  using double_round_at [of 0 1] by (simp add: is_time_def is_double_def round_even_def powr_neg_numeral)

lemma is_time_3_2: "is_time (3 / 2)"
  using double_round_at [of 0 "3 / 2"]
  by (simp add: is_time_def is_double_def round_even_def powr_neg_numeral)

lemma double_round_tenth: "double_round (1 / 10) = 3602879701896397 / 36028797018963968"
  using double_round_at [of "- 4" "1 / 10"]
  by (simp add: round_even_def powr_neg_numeral powr_minus_divide)

lemma double_round_seven_tenths: "double_round (7 / 10) = 3152519739159347 / 4503599627370496"
  using double_round_at [of "- 1" "7 / 10"]
  by (simp add: round_even_def powr_neg_numeral powr_minus_divide)

lemma double_tenth: "double_round (3602879701896397 / 36028797018963968) = 3602879701896397 / 36028797018963968"
  using double_round_idem_pos [of "1 / 10"] by (simp add: double_round_tenth)

lemma double_sum_tenths:
  "double_round (28823037615171173 / 36028797018963968) = 7205759403792793 / 9007199254740992"
  using double_round_at [of "- 1" "28823037615171173 / 36028797018963968"]
  by (simp add: round_even_def powr_neg_numeral powr_minus_divide)

section \<open>Sequences of statements and the teardown\<close>

lemma steps_rel:
  fixes R :: "service \<Rightarrow> service \<Rightarrow> bool"
  assumes refl: "\<And>s. R s s"
    and trans: "\<And>s t u. R s t \<Longrightarrow> R t u \<Longrightarrow> R s u"
    and step: "\<And>f s. f \<in> set fs \<Longrightarrow> R s (snd (f s))"
  shows "R s (snd (steps fs s))"
  using step
proof (induction fs arbitrary: s)
  case Nil
  show ?case by (simp add: refl)
next
  case (Cons f fs)
  have head: "R s (snd (f s))" by (rule Cons.prems) simp
  show ?case
  proof (cases "f s")
    case (Pair out s')
    show ?thesis
    proof (cases out)
      case Returned
      have "R s' (snd (steps fs s'))" by (rule Cons.IH) (simp add: Cons.prems)
      with head Pair Returned show ?thesis by (auto intro: trans)
    next
      case (Threw e)
      with head Pair show ?thesis by simp
    qed
  qed
qed

lemma forEach_invoke:
  "forEach (\<lambda>x. invoke throws (mk x)) xs s =
     (case find (\<lambda>x. throws (mk x)) xs of
        None \<Rightarrow> (Returned, s\<lparr>calls := calls s @ map mk xs\<rparr>)
      | Some x \<Rightarrow> (Threw (CallFailed (mk x)),
          s\<lparr>calls := calls s @ map mk (takeWhile (\<lambda>x. \<not> throws (mk x)) xs)\<rparr>))"
proof (induction xs arbitrary: s)
  case Nil
  show ?case by (simp add: forEach_def)
next
  case (Cons x xs)
  show ?case
  proof (cases "throws (mk x)")
    case True
    then show ?thesis by (simp add: forEach_def invoke_def)
  next
    case False
    have "forEach (\<lambda>x. invoke throws (mk x)) (x # xs) s =
          forEach (\<lambda>x. invoke throws (mk x)) xs (s\<lparr>calls := calls s @ [mk x]\<rparr>)"
      using False by (simp add: forEach_def invoke_def)
    with False show ?thesis by (simp add: Cons.IH split: option.splits)
  qed
qed

lemma close_no_throw:
  assumes "\<forall>c \<in> set (releases s). \<not> throws c"
  shows "closeLiveSession throws s =
     (Returned, s\<lparr>liveSession := None, sources := [], nextStartTime := 0,
        calls := calls s @ releases s\<rparr>)"
proof -
  have f1: "\<And>ts. mediaStream s = Some ts \<Longrightarrow> find (\<lambda>t. throws (TrackStop t)) ts = None"
    using assms by (auto simp: releases_def find_None_iff)
  have f2: "find (\<lambda>n. throws (SourceStop n)) (sources s) = None"
    using assms by (auto simp: releases_def find_None_iff)
  show ?thesis
    using assms f1 f2
    by (simp add: closeLiveSession_def optionally_def assign_def forEach_invoke invoke_def releases_def
        split: option.splits)
qed

lemma close_returned_iff:
  "fst (closeLiveSession throws s) = Returned \<longleftrightarrow> (\<forall>c \<in> set (releases s). \<not> throws c)"
proof
  assume "\<forall>c \<in> set (releases s). \<not> throws c"
  then show "fst (closeLiveSession throws s) = Returned" by (simp add: close_no_throw)
next
  assume r: "fst (closeLiveSession throws s) = Returned"
  have a: "\<And>h. liveSession s = Some h \<Longrightarrow> \<not> throws (SessionClose h)"
    using r by (auto simp: closeLiveSession_def optionally_def invoke_def)
  have b: "\<And>ts t. mediaStream s = Some ts \<Longrightarrow> t \<in> set ts \<Longrightarrow> \<not> throws (TrackStop t)"
    using r
    by (auto simp: closeLiveSession_def optionally_def invoke_def assign_def forEach_invoke
        find_None_iff split: option.splits if_splits)
  have c: "\<And>p. scriptProcessor s = Some p \<Longrightarrow> \<not> throws (ProcessorDisconnect p)"
    using r
    by (auto simp: closeLiveSession_def optionally_def invoke_def assign_def forEach_invoke
        split: option.splits if_splits)
  have d: "\<And>c. inputAudioContext s = Some c \<Longrightarrow> \<not> throws (ContextClose c)"
    using r
    by (auto simp: closeLiveSession_def optionally_def invoke_def assign_def forEach_invoke
        split: option.splits if_splits)
  have e: "\<And>c. outputAudioContext s = Some c \<Longrightarrow> \<not> throws (ContextClose c)"
    using r
    by (auto simp: closeLiveSession_def optionally_def invoke_def assign_def forEach_invoke
        split: option.splits if_splits)
  have f: "\<And>n. n \<in> set (sources s) \<Longrightarrow> \<not> throws (SourceStop n)"
    using r
    by (auto simp: closeLiveSession_def optionally_def invoke_def assign_def forEach_invoke
        find_None_iff split: option.splits if_splits)
  show "\<forall>c \<in> set (releases s). \<not> throws c"
  proof
    fix x assume "x \<in> set (releases s)"
    then consider (session) h where "liveSession s = Some h" "x = SessionClose h"
      | (track) ts t where "mediaStream s = Some ts" "t \<in> set ts" "x = TrackStop t"
      | (processor) p where "scriptProcessor s = Some p" "x = ProcessorDisconnect p"
      | (capture_ctx) i where "inputAudioContext s = Some i" "x = ContextClose i"
      | (playback_ctx) o' where "outputAudioContext s = Some o'" "x = ContextClose o'"
      | (source) n where "n \<in> set (sources s)" "x = SourceStop n"
      unfolding releases_def
      by (cases "liveSession s"; cases "mediaStream s"; cases "scriptProcessor s";
          cases "inputAudioContext s"; cases "outputAudioContext s") auto
    then show "\<not> throws x"
    proof cases
      case session then show ?thesis using a by simp
    next
      case track then show ?thesis using b by simp
    next
      case processor then show ?thesis using c by simp
    next
      case capture_ctx then show ?thesis using d by simp
    next
      case playback_ctx then show ?thesis using e by simp
    next
      case source then show ?thesis using f by simp
    qed
  qed
qed

lemma find_Some_ex: "find P xs = Some x \<Longrightarrow> \<exists>x \<in> set xs. P x"
  by (induction xs) (auto split: if_splits)

lemma forEach_invoke_if:
  "forEach (\<lambda>x. invoke throws (mk x)) xs s =
     (if \<forall>x \<in> set xs. \<not> throws (mk x) then (Returned, s\<lparr>calls := calls s @ map mk xs\<rparr>)
      else (Threw (CallFailed (mk (the (find (\<lambda>x. throws (mk x)) xs)))),
            s\<lparr>calls := calls s @ takeWhile (\<lambda>c. \<not> throws c) (map mk xs)\<rparr>))"
proof (cases "find (\<lambda>x. throws (mk x)) xs")
  case None
  then have "\<forall>x \<in> set xs. \<not> throws (mk x)" by (simp add: find_None_iff)
  with None show ?thesis by (simp add: forEach_invoke)
next
  case (Some x)
  then have "\<not> (\<forall>x \<in> set xs. \<not> throws (mk x))" by (auto dest: find_Some_ex)
  with Some show ?thesis by (simp add: forEach_invoke takeWhile_map comp_def)
qed

lemma takeWhile_append_if:
  "takeWhile P (xs @ ys) = (if \<forall>x \<in> set xs. P x then xs @ takeWhile P ys else takeWhile P xs)"
  by (induction xs) auto

lemma takeWhile_map_all: "\<forall>x \<in> set xs. P (f x) \<Longrightarrow> takeWhile P (map f xs) = map f xs"
  by (induction xs) auto

lemma close_calls_prefix:
  "calls (snd (closeLiveSession throws s)) = calls s @ takeWhile (\<lambda>c. \<not> throws c) (releases s)"
  by (cases "liveSession s"; cases "mediaStream s"; cases "scriptProcessor s";
          cases "inputAudioContext s"; cases "outputAudioContext s")
   (simp_all add: closeLiveSession_def optionally_def assign_def invoke_def releases_def
         takeWhile_append_if forEach_invoke_if takeWhile_map_all)

lemma close_aborted:
  "fst (closeLiveSession throws s) \<noteq> Returned \<Longrightarrow>
     sources (snd (closeLiveSession throws s)) = sources s \<and>
     nextStartTime (snd (closeLiveSession throws s)) = nextStartTime s"
  by (cases "liveSession s"; cases "mediaStream s"; cases "scriptProcessor s";
          cases "inputAudioContext s"; cases "outputAudioContext s")
   (auto simp add: closeLiveSession_def optionally_def assign_def invoke_def forEach_invoke_if
      split: if_splits)

lemma closeLiveSession_effect:
  "\<exists>cs. calls (snd (closeLiveSession throws s)) = calls s @ cs \<and> filter is_send cs = [] \<and>
     filter is_host cs = [] \<and>
     (liveSession s = None \<longrightarrow> liveSession (snd (closeLiveSession throws s)) = None)"
proof -
  define R :: "service \<Rightarrow> service \<Rightarrow> bool" where "R = (\<lambda>s s'. \<exists>cs. calls s' = calls s @ cs \<and> filter is_send cs = [] \<and>
     filter is_host cs = [] \<and> (liveSession s = None \<longrightarrow> liveSession s' = None))"
  have refl: "\<And>s. R s s" by (simp add: R_def)
  have trans: "\<And>s t u. R s t \<Longrightarrow> R t u \<Longrightarrow> R s u" by (auto simp: R_def)
  have inv: "\<And>c s. \<not> is_send c \<Longrightarrow> \<not> is_host c \<Longrightarrow> R s (snd (invoke throws c s))"
    by (simp add: R_def invoke_def)
  have each: "\<And>mk xs s. (\<And>x. \<not> is_send (mk x) \<and> \<not> is_host (mk x)) \<Longrightarrow>
      R s (snd (forEach (\<lambda>x. invoke throws (mk x)) xs s))"
    unfolding forEach_def by (rule steps_rel [of R, OF refl trans]) (auto intro: inv)
  have opt: "\<And>v f s. (\<And>x s. R s (snd (f x s))) \<Longrightarrow> R s (snd (optionally v f s))"
    by (simp add: optionally_def refl split: option.splits)
  have "R s (snd (closeLiveSession throws s))"
    unfolding closeLiveSession_def
  proof (rule steps_rel [of R, OF refl trans])
    fix f s
    assume "f \<in> set
      [(\<lambda>s. optionally (liveSession s) (\<lambda>session. invoke throws (SessionClose session)) s),
       assign (\<lambda>s. s\<lparr>liveSession := None\<rparr>),
       (\<lambda>s. optionally (mediaStream s) (forEach (\<lambda>track. invoke throws (TrackStop track))) s),
       (\<lambda>s. optionally (scriptProcessor s) (\<lambda>p. invoke throws (ProcessorDisconnect p)) s),
       (\<lambda>s. optionally (inputAudioContext s) (\<lambda>c. invoke throws (ContextClose c)) s),
       (\<lambda>s. optionally (outputAudioContext s) (\<lambda>c. invoke throws (ContextClose c)) s),
       (\<lambda>s. forEach (\<lambda>source. invoke throws (SourceStop source)) (sources s) s),
       assign (\<lambda>s. s\<lparr>sources := []\<rparr>),
       assign (\<lambda>s. s\<lparr>nextStartTime := 0\<rparr>)]"
    then consider
        "f = (\<lambda>s. optionally (liveSession s) (\<lambda>session. invoke throws (SessionClose session)) s)"
      | "f = assign (\<lambda>s. s\<lparr>liveSession := None\<rparr>)"
      | "f = (\<lambda>s. optionally (mediaStream s) (forEach (\<lambda>track. invoke throws (TrackStop track))) s)"
      | "f = (\<lambda>s. optionally (scriptProcessor s) (\<lambda>p. invoke throws (ProcessorDisconnect p)) s)"
      | "f = (\<lambda>s. optionally (inputAudioContext s) (\<lambda>c. invoke throws (ContextClose c)) s)"
      | "f = (\<lambda>s. optionally (outputAudioContext s) (\<lambda>c. invoke throws (ContextClose c)) s)"
      | "f = (\<lambda>s. forEach (\<lambda>source. invoke throws (SourceStop source)) (sources s) s)"
      | "f = assign (\<lambda>s. s\<lparr>sources := []\<rparr>)"
      | "f = assign (\<lambda>s. s\<lparr>nextStartTime := 0\<rparr>)"
      by (simp only: set_simps insert_iff empty_iff) blast
    then show "R s (snd (f s))"
    proof cases
      case 1 then show ?thesis by (simp add: opt inv)
    next
      case 2 then show ?thesis by (simp add: R_def assign_def)
    next
      case 3 then show ?thesis by (simp add: opt each)
    next
      case 4 then show ?thesis by (simp add: opt inv)
    next
      case 5 then show ?thesis by (simp add: opt inv)
    next
      case 6 then show ?thesis by (simp add: opt inv)
    next
      case 7 then show ?thesis by (simp add: each)
    next
      case 8 then show ?thesis by (simp add: R_def assign_def)
    next
      case 9 then show ?thesis by (simp add: R_def assign_def)
    qed
  qed
  then show ?thesis by (simp add: R_def)
qed


text \<open>The concrete states, evaluated.\<close>

lemma opened_eq: "opened = \<lparr>ai = True, liveSession = Some 2, inputAudioContext = Some 0,
    outputAudioContext = Some 1, mediaStream = Some [7],
    scriptProcessor = Some 3, nextStartTime = 0, sources = [], fresh = 4,
    calls =
      [NewAudioContext 0 16000, NewAudioContext 1 24000, LiveConnect 2,
       GetUserMedia, CreateMediaStreamSource, CreateScriptProcessor 3,
       ConnectSource 3, ConnectProcessor 3, HostOnOpen]\<rparr>"
  by (simp add: opened_def initial_def connectLive_def onopen_def getAi_def invoke_def assign_def no_faults_def)

lemma playing_eq: "playing =
  \<lparr>ai = True, liveSession = Some 2, inputAudioContext = Some 0,
    outputAudioContext = Some 1, mediaStream = Some [7],
    scriptProcessor = Some 3, nextStartTime = 4,
    sources = [\<lparr>node_id = 4, buffer_duration = 1\<rparr>, \<lparr>node_id = 5, buffer_duration = 2\<rparr>],
    fresh = 6,
    calls = calls opened @
      [HostOnMessage (audio_message ''AAAA''),
       CreateBufferSource \<lparr>node_id = 4, buffer_duration = 1\<rparr>,
       ConnectDestination \<lparr>node_id = 4, buffer_duration = 1\<rparr>,
       SourceStart \<lparr>node_id = 4, buffer_duration = 1\<rparr> 1,
       HostOnMessage (audio_message ''AAAAAAAA''),
       CreateBufferSource \<lparr>node_id = 5, buffer_duration = 2\<rparr>,
       ConnectDestination \<lparr>node_id = 5, buffer_duration = 2\<rparr>,
       SourceStart \<lparr>node_id = 5, buffer_duration = 2\<rparr> 2]\<rparr>"
  by (simp add: playing_def opened_eq onmessage_def schedule_def invoke_def assign_def
      no_faults_def audio_message_def demo_decode_def set_add_def Let_def double_add_def
      double_round_2 double_round_4)


section \<open>Properties of the playback scheduler\<close>

lemma scheduled_append: "scheduled (xs @ ys) = scheduled xs @ scheduled ys"
  by (induction xs rule: scheduled.induct) simp_all

lemma admissible_mono: "n \<le> n' \<Longrightarrow> admissible n' segs \<Longrightarrow> admissible n segs"
  by (cases segs) auto

lemma admissible_nth:
  "admissible n segs \<Longrightarrow> Suc i < length segs \<Longrightarrow>
     double_add (fst (segs ! i)) (snd (segs ! i)) \<le> fst (segs ! Suc i) \<and>
     fst (segs ! i) \<le> fst (segs ! Suc i)"
proof (induction n segs arbitrary: i rule: admissible.induct)
  case (1 n)
  then show ?case by simp
next
  case (2 n t d segs)
  show ?case
  proof (cases i)
    case 0
    with "2.prems" obtain t' d' rest where segs: "segs = (t', d') # rest" by (cases segs) auto
    from "2.prems" have "is_double t" "0 \<le> t" "0 \<le> d" by simp_all
    from double_add_ge [OF this] have "t \<le> double_add t d" by simp
    moreover from "2.prems" segs have "double_add t d \<le> t'" by simp
    ultimately show ?thesis using 0 segs by simp
  next
    case (Suc j)
    with "2.prems" have "admissible (double_add t d) segs" "Suc j < length segs" by simp_all
    from "2.IH" [OF this] Suc show ?thesis by simp
  qed
qed

lemma advance_weaken: "n \<le> n1 \<Longrightarrow> advance n1 segs n2 \<Longrightarrow> advance n segs n2"
  by (auto simp: advance_def)

lemma connectLive_effect:
  "\<exists>cs. calls (snd (connectLive throws k s)) = calls s @ cs \<and> scheduled cs = [] \<and>
     filter is_send cs = [] \<and>
     nextStartTime (snd (connectLive throws k s)) = nextStartTime s \<and>
     liveSession (snd (connectLive throws k s)) = liveSession s"
  by (simp add: connectLive_def getAi_def invoke_def assign_def)

lemma onopen_effect:
  "\<exists>cs. calls (snd (onopen throws h ts s)) = calls s @ cs \<and> scheduled cs = [] \<and>
     nextStartTime (snd (onopen throws h ts s)) = nextStartTime s"
  by (simp add: onopen_def invoke_def assign_def Let_def)

lemma onaudioprocess_effect:
  "\<exists>cs. calls (snd (onaudioprocess throws enc xs s)) = calls s @ cs \<and> scheduled cs = [] \<and>
     (liveSession s = None \<longrightarrow> cs = []) \<and>
     nextStartTime (snd (onaudioprocess throws enc xs s)) = nextStartTime s \<and>
     liveSession (snd (onaudioprocess throws enc xs s)) = liveSession s"
  by (simp add: onaudioprocess_def invoke_def split: option.splits)

lemma schedule_effect:
  "\<exists>cs. calls (snd (schedule throws d s)) = calls s @ cs \<and> filter is_send cs = [] \<and>
     liveSession (snd (schedule throws d s)) = liveSession s \<and>
     ((scheduled cs = [] \<and> nextStartTime (snd (schedule throws d s)) = nextStartTime s) \<or>
      (scheduled cs = [(nextStartTime s, d)] \<and>
       nextStartTime (snd (schedule throws d s)) = double_add (nextStartTime s) d))"
  by (simp add: schedule_def invoke_def assign_def Let_def)

lemma onmessage_split:
  "onmessage throws dec clock msg s =
     (case onmessage_arrive throws clock msg s of
        (Threw e, s') \<Rightarrow> (Threw e, s')
      | (Returned, s') \<Rightarrow>
          (case awaited msg of
             None \<Rightarrow> (Returned, s')
           | Some b64 \<Rightarrow> onmessage_resume throws dec b64 s'))"
  by (simp add: onmessage_def onmessage_arrive_def onmessage_resume_def awaited_def invoke_def
      Let_def split: sum.splits option.splits)

lemma onmessage_cases:
  "snd (onmessage throws dec clock msg s) = snd (onmessage_arrive throws clock msg s) \<or>
   (\<exists>b64. snd (onmessage throws dec clock msg s) =
      snd (onmessage_resume throws dec b64 (snd (onmessage_arrive throws clock msg s))))"
proof (cases "onmessage_arrive throws clock msg s")
  case (Pair out s')
  show ?thesis
  proof (cases out)
    case Returned
    with Pair show ?thesis by (cases "awaited msg") (auto simp: onmessage_split)
  next
    case (Threw e)
    with Pair show ?thesis by (simp add: onmessage_split)
  qed
qed

lemma onmessage_arrive_effect:
  "\<exists>cs. calls (snd (onmessage_arrive throws clock msg s)) = calls s @ cs \<and>
     filter is_send cs = [] \<and> scheduled cs = [] \<and>
     liveSession (snd (onmessage_arrive throws clock msg s)) = liveSession s \<and>
     (nextStartTime (snd (onmessage_arrive throws clock msg s)) = nextStartTime s \<or>
      nextStartTime (snd (onmessage_arrive throws clock msg s)) = max (nextStartTime s) clock)"
  by (simp add: onmessage_arrive_def invoke_def split: sum.splits option.splits)

lemma onmessage_resume_effect:
  "\<exists>cs. calls (snd (onmessage_resume throws dec b64 s)) = calls s @ cs \<and>
     filter is_send cs = [] \<and>
     liveSession (snd (onmessage_resume throws dec b64 s)) = liveSession s \<and>
     ((scheduled cs = [] \<and> nextStartTime (snd (onmessage_resume throws dec b64 s)) = nextStartTime s) \<or>
      (\<exists>d. dec b64 = Some d \<and> scheduled cs = [(nextStartTime s, d)] \<and>
         nextStartTime (snd (onmessage_resume throws dec b64 s)) = double_add (nextStartTime s) d))"
proof (cases "dec b64")
  case None
  then show ?thesis by (simp add: onmessage_resume_def)
next
  case (Some d)
  with schedule_effect [of throws d s] show ?thesis by (simp add: onmessage_resume_def)
qed

lemma onmessage_effect:
  "\<exists>cs. calls (snd (onmessage throws dec clock msg s)) = calls s @ cs \<and>
     filter is_send cs = [] \<and>
     liveSession (snd (onmessage throws dec clock msg s)) = liveSession s"
proof -
  let ?s1 = "snd (onmessage_arrive throws clock msg s)"
  from onmessage_arrive_effect [of throws clock msg s] obtain cs1 where
    a: "calls ?s1 = calls s @ cs1" "filter is_send cs1 = []" "liveSession ?s1 = liveSession s"
    by blast
  from onmessage_cases [of throws dec clock msg s] show ?thesis
  proof
    assume "snd (onmessage throws dec clock msg s) = ?s1"
    with a show ?thesis by simp
  next
    assume "\<exists>b64. snd (onmessage throws dec clock msg s) = snd (onmessage_resume throws dec b64 ?s1)"
    then obtain b64 where
      r: "snd (onmessage throws dec clock msg s) = snd (onmessage_resume throws dec b64 ?s1)" ..
    from onmessage_resume_effect [of throws dec b64 ?s1] obtain cs2 where
      "calls (snd (onmessage_resume throws dec b64 ?s1)) = calls ?s1 @ cs2"
      "filter is_send cs2 = []"
      "liveSession (snd (onmessage_resume throws dec b64 ?s1)) = liveSession ?s1"
      by blast
    with a r have "calls (snd (onmessage throws dec clock msg s)) = calls s @ (cs1 @ cs2)"
      "filter is_send (cs1 @ cs2) = []"
      "liveSession (snd (onmessage throws dec clock msg s)) = liveSession s"
      by simp_all
    then show ?thesis by blast
  qed
qed

lemma arrive_step:
  assumes "is_time clock" "is_time (nextStartTime s)"
  shows "\<exists>cs. calls (snd (onmessage_arrive throws clock msg s)) = calls s @ cs \<and>
     advance (nextStartTime s) (scheduled cs) (nextStartTime (snd (onmessage_arrive throws clock msg s))) \<and>
     is_time (nextStartTime (snd (onmessage_arrive throws clock msg s)))"
  using onmessage_arrive_effect [of throws clock msg s] assms
  by (auto simp: advance_def is_time_def max_def)

lemma resume_step:
  assumes "\<forall>b d. dec b = Some d \<longrightarrow> 0 \<le> d" "is_time (nextStartTime s)"
  shows "\<exists>cs. calls (snd (onmessage_resume throws dec b64 s)) = calls s @ cs \<and>
     advance (nextStartTime s) (scheduled cs) (nextStartTime (snd (onmessage_resume throws dec b64 s))) \<and>
     is_time (nextStartTime (snd (onmessage_resume throws dec b64 s)))"
proof -
  let ?s' = "snd (onmessage_resume throws dec b64 s)"
  from onmessage_resume_effect [of throws dec b64 s] obtain cs where
    c: "calls ?s' = calls s @ cs"
      and e: "(scheduled cs = [] \<and> nextStartTime ?s' = nextStartTime s) \<or>
        (\<exists>d. dec b64 = Some d \<and> scheduled cs = [(nextStartTime s, d)] \<and>
           nextStartTime ?s' = double_add (nextStartTime s) d)"
    by blast
  from e show ?thesis
  proof
    assume "scheduled cs = [] \<and> nextStartTime ?s' = nextStartTime s"
    with c assms(2) show ?thesis by (auto simp: advance_def)
  next
    assume "\<exists>d. dec b64 = Some d \<and> scheduled cs = [(nextStartTime s, d)] \<and>
           nextStartTime ?s' = double_add (nextStartTime s) d"
    then obtain d where d: "dec b64 = Some d" "scheduled cs = [(nextStartTime s, d)]"
      "nextStartTime ?s' = double_add (nextStartTime s) d" by blast
    from assms(1) d(1) have nonneg: "0 \<le> d" by blast
    from assms(2) have t: "is_double (nextStartTime s)" "0 \<le> nextStartTime s"
      by (simp_all add: is_time_def)
    from double_add_ge [OF t nonneg] have "is_time (double_add (nextStartTime s) d)"
      by (simp add: is_time_def)
    with c d t nonneg show ?thesis by (auto simp: advance_def)
  qed
qed

lemma fire_effect:
  assumes "\<forall>b d. dec b = Some d \<longrightarrow> 0 \<le> d" and "e \<noteq> CloseLiveSession"
    and "clock_ok e" and "is_time (nextStartTime s)"
  shows "\<exists>cs. calls (fire throws enc dec e s) = calls s @ cs \<and>
     advance (nextStartTime s) (scheduled cs) (nextStartTime (fire throws enc dec e s)) \<and>
     is_time (nextStartTime (fire throws enc dec e s))"
proof (cases e)
  case (ConnectLive k)
  with connectLive_effect [of throws k s] assms(4) show ?thesis by (auto simp: advance_def)
next
  case (OnOpen h ts)
  with onopen_effect [of throws h ts s] assms(4) show ?thesis by (auto simp: advance_def)
next
  case (OnAudioProcess xs)
  with onaudioprocess_effect [of throws enc xs s] assms(4) show ?thesis by (auto simp: advance_def)
next
  case (OnMessage clock msg)
  with assms(3) have clock: "is_time clock" by simp
  let ?s1 = "snd (onmessage_arrive throws clock msg s)"
  from arrive_step [OF clock assms(4), of throws msg] obtain cs1 where
    a: "calls ?s1 = calls s @ cs1" "advance (nextStartTime s) (scheduled cs1) (nextStartTime ?s1)"
      "is_time (nextStartTime ?s1)" by blast
  from onmessage_arrive_effect [of throws clock msg s] a(1) have quiet: "scheduled cs1 = []" by auto
  with a(2) have le: "nextStartTime s \<le> nextStartTime ?s1" by (simp add: advance_def)
  from onmessage_cases [of throws dec clock msg s] show ?thesis
  proof
    assume "snd (onmessage throws dec clock msg s) = ?s1"
    with a OnMessage show ?thesis by auto
  next
    assume "\<exists>b64. snd (onmessage throws dec clock msg s) = snd (onmessage_resume throws dec b64 ?s1)"
    then obtain b64 where
      r: "snd (onmessage throws dec clock msg s) = snd (onmessage_resume throws dec b64 ?s1)" ..
    let ?s2 = "snd (onmessage_resume throws dec b64 ?s1)"
    from resume_step [OF assms(1) a(3), of throws b64] obtain cs2 where
      b: "calls ?s2 = calls ?s1 @ cs2" "advance (nextStartTime ?s1) (scheduled cs2) (nextStartTime ?s2)"
        "is_time (nextStartTime ?s2)" by blast
    have "calls ?s2 = calls s @ (cs1 @ cs2)" using a(1) b(1) by simp
    moreover have "advance (nextStartTime s) (scheduled (cs1 @ cs2)) (nextStartTime ?s2)"
      using advance_weaken [OF le b(2)] quiet by (simp add: scheduled_append)
    ultimately show ?thesis using b(3) r OnMessage by auto
  qed
next
  case (OnMessageArrive clock msg)
  with assms(3) have "is_time clock" by simp
  from arrive_step [OF this assms(4), of throws msg] OnMessageArrive show ?thesis by simp
next
  case (OnMessageResume b64)
  with resume_step [OF assms(1,4), of throws b64] show ?thesis by simp
next
  case (OnEnded n)
  with assms(4) show ?thesis by (simp add: ended_def advance_def)
next
  case OnClose
  with assms(4) show ?thesis by (simp add: onclose_def invoke_def advance_def)
next
  case (OnError x)
  with assms(4) show ?thesis by (simp add: onerror_def invoke_def advance_def)
next
  case CloseLiveSession
  with assms(2) show ?thesis by simp
qed

lemma run_effect:
  assumes "\<forall>b d. dec b = Some d \<longrightarrow> 0 \<le> d"
  shows "CloseLiveSession \<notin> set evs \<Longrightarrow> \<forall>e \<in> set evs. clock_ok e \<Longrightarrow>
     is_time (nextStartTime s) \<Longrightarrow>
     \<exists>cs. calls (run throws enc dec evs s) = calls s @ cs \<and>
       admissible (nextStartTime s) (scheduled cs) \<and>
       nextStartTime s \<le> nextStartTime (run throws enc dec evs s)"
proof (induction evs arbitrary: s)
  case Nil
  show ?case by simp
next
  case (Cons e es)
  let ?s1 = "fire throws enc dec e s"
  from Cons.prems have e: "e \<noteq> CloseLiveSession" "clock_ok e"
    and es: "CloseLiveSession \<notin> set es" "\<forall>e \<in> set es. clock_ok e" by auto
  from fire_effect [OF assms e Cons.prems(3), of throws enc] obtain cs1 where
    c1: "calls ?s1 = calls s @ cs1"
      and a1: "advance (nextStartTime s) (scheduled cs1) (nextStartTime ?s1)"
      and t1: "is_time (nextStartTime ?s1)" by blast
  from Cons.IH [OF es t1] obtain cs2 where
    c2: "calls (run throws enc dec es ?s1) = calls ?s1 @ cs2"
      and a2: "admissible (nextStartTime ?s1) (scheduled cs2)"
      and m2: "nextStartTime ?s1 \<le> nextStartTime (run throws enc dec es ?s1)" by blast
  have le: "nextStartTime s \<le> nextStartTime ?s1"
  proof -
    from a1 consider "nextStartTime s \<le> nextStartTime ?s1"
      | t d where "nextStartTime s \<le> t" "is_double t" "0 \<le> t" "0 \<le> d"
          "nextStartTime ?s1 = double_add t d"
      by (auto simp: advance_def)
    then show ?thesis
    proof cases
      case 1
      then show ?thesis .
    next
      case 2
      from double_add_ge [OF 2(2,3,4)] 2(1,5) show ?thesis by simp
    qed
  qed
  have "calls (run throws enc dec (e # es) s) = calls s @ (cs1 @ cs2)"
    using c1 c2 by simp
  moreover have "admissible (nextStartTime s) (scheduled (cs1 @ cs2))"
    using a1 a2 by (auto simp: advance_def scheduled_append intro: admissible_mono)
  moreover have "nextStartTime s \<le> nextStartTime (run throws enc dec (e # es) s)"
    using le m2 by simp
  ultimately show ?case by blast
qed

text \<open>
  Claim C1, as the code has it. Take any state whose cursor is a time and any sequence of
  events without a teardown (one session) whose clock readings are times, and suppose decoded
  buffers have non-negative durations. Let \<open>segs\<close> be the segments started during the run, in
  order, as pairs of start time and duration. Then the start times are non-decreasing, each
  segment starts no earlier than the cursor its predecessor left, which is the double sum of
  the predecessor's start time and duration, and the cursor \<open>nextStartTime\<close> at the end is no
  earlier than at the start. (The double sum can be below the exact sum.) The segments are
  taken in the order in which they are started. That is the order of arrival when each message
  is handled to its end before the next (events \<open>OnMessage\<close>); the statement also covers
  handlers that wait for their decode while other events are handled.
\<close>

theorem scheduler_no_overlap:
  assumes "\<forall>b d. decodeAudioData b = Some d \<longrightarrow> 0 \<le> d"
    and "CloseLiveSession \<notin> set evs"
    and "\<forall>e \<in> set evs. clock_ok e"
    and "is_time (nextStartTime s)"
  shows "let s' = run throws encode decodeAudioData evs s;
             segs = scheduled (drop (length (calls s)) (calls s'))
         in (\<forall>i. Suc i < length segs \<longrightarrow>
               double_add (fst (segs ! i)) (snd (segs ! i)) \<le> fst (segs ! Suc i) \<and>
               fst (segs ! i) \<le> fst (segs ! Suc i)) \<and>
            nextStartTime s \<le> nextStartTime s'"
proof -
  from run_effect [OF assms, of throws encode] obtain cs where
    c: "calls (run throws encode decodeAudioData evs s) = calls s @ cs"
      and a: "admissible (nextStartTime s) (scheduled cs)"
      and m: "nextStartTime s \<le> nextStartTime (run throws encode decodeAudioData evs s)" by blast
  from c have "scheduled (drop (length (calls s)) (calls (run throws encode decodeAudioData evs s))) =
      scheduled cs" by simp
  with a m show ?thesis by (auto simp: Let_def dest: admissible_nth)
qed

text \<open>The theorem at two audio messages received in the open session.\<close>

theorem scheduler_no_overlap_witness:
  "CloseLiveSession \<notin> set [OnMessage 1 (audio_message ''AAAA''), OnMessage (3 / 2) (audio_message ''AAAAAAAA'')] \<and>
   is_time (nextStartTime opened) \<and>
   scheduled (drop (length (calls opened)) (calls playing)) = [(1, 1), (2, 2)] \<and>
   double_add 1 1 \<le> 2 \<and>
   nextStartTime opened \<le> nextStartTime playing"
proof -
  have h1: "\<forall>b d. demo_decode b = Some d \<longrightarrow> 0 \<le> d" by (auto simp: demo_decode_def)
  have h2: "CloseLiveSession \<notin> set [OnMessage 1 (audio_message ''AAAA''),
      OnMessage (3 / 2) (audio_message ''AAAAAAAA'')]" by simp
  have h3: "\<forall>e \<in> set [OnMessage 1 (audio_message ''AAAA''),
      OnMessage (3 / 2) (audio_message ''AAAAAAAA'')]. clock_ok e"
    by (simp add: is_time_1 is_time_3_2)
  have h4: "is_time (nextStartTime opened)" by (simp add: opened_eq is_time_def is_double_zero)
  have segs: "scheduled (drop (length (calls opened)) (calls playing)) = [(1, 1), (2, 2)]"
    by (simp add: playing_eq)
  note t = scheduler_no_overlap [OF h1 h2 h3 h4, of no_faults demo_encode,
      unfolded Let_def playing_def [symmetric] segs]
  from t [THEN conjunct1, rule_format, of 0] have "double_add 1 1 \<le> 2" by simp
  moreover from t have "nextStartTime opened \<le> nextStartTime playing" by blast
  ultimately show ?thesis using h2 h4 segs by blast
qed

text \<open>
  Claim C1 as stated fails: the cursor is a double sum. Three messages of 0.1 s, 0.7 s and
  0.1 s arrive in the open session at clock time zero. The second segment starts at the double
  0.1 and lasts the double 0.7; the third starts at the cursor 0.7999999999999999, which is
  below the sum of the two.
\<close>

theorem scheduler_rounding_counterexample:
  "burst_segments =
     [(0, 3602879701896397 / 36028797018963968),
      (3602879701896397 / 36028797018963968, 3152519739159347 / 4503599627370496),
      (7205759403792793 / 9007199254740992, 3602879701896397 / 36028797018963968)] \<and>
   \<not> fst (burst_segments ! 1) + snd (burst_segments ! 1) \<le> fst (burst_segments ! 2)"
proof -
  have e: "burst_segments =
     [(0, 3602879701896397 / 36028797018963968),
      (3602879701896397 / 36028797018963968, 3152519739159347 / 4503599627370496),
      (7205759403792793 / 9007199254740992, 3602879701896397 / 36028797018963968)]"
    by (simp add: burst_segments_def opened_eq onmessage_def schedule_def invoke_def assign_def
        no_faults_def audio_message_def tenths_decode_def set_add_def Let_def double_add_def
        double_round_tenth double_round_seven_tenths double_tenth double_sum_tenths)
  show ?thesis unfolding e by simp
qed

text \<open>
  Claim C5, as the code has it. For a message that carries an audio payload which decodes to
  a buffer of duration \<open>d\<close>, with no call throwing: when the message arrives the handler
  raises the cursor to \<open>max nextStartTime currentTime\<close>, \<open>currentTime\<close> being the playback
  clock read then, and waits for the decode; when the decode is done it starts the segment at
  the value the cursor has at that moment and sets the cursor to the double sum of that value
  and \<open>d\<close>. When the handler runs to its end with no other event in between, the segment
  starts at \<open>max nextStartTime currentTime\<close>, which is the clock time when the clock has
  passed the cursor.
\<close>

theorem onmessage_start_time:
  assumes "awaited msg = Some b64" and "decodeAudioData b64 = Some d" and "\<forall>c. \<not> throws c"
  shows
    "(let s1 = snd (onmessage_arrive throws currentTime msg s)
      in fst (onmessage_arrive throws currentTime msg s) = Returned \<and>
         calls s1 = calls s @ [HostOnMessage msg] \<and>
         nextStartTime s1 = max (nextStartTime s) currentTime) \<and>
     (let sourceNode = \<lparr>node_id = fresh r, buffer_duration = d\<rparr>;
          r' = snd (onmessage_resume throws decodeAudioData b64 r)
      in fst (onmessage_resume throws decodeAudioData b64 r) = Returned \<and>
         calls r' = calls r @ [CreateBufferSource sourceNode, ConnectDestination sourceNode,
           SourceStart sourceNode (nextStartTime r)] \<and>
         nextStartTime r' = double_add (nextStartTime r) d \<and>
         sources r' = set_add sourceNode (sources r)) \<and>
     (let sourceNode = \<lparr>node_id = fresh s, buffer_duration = d\<rparr>;
          startAt = max (nextStartTime s) currentTime;
          s' = snd (onmessage throws decodeAudioData currentTime msg s)
      in fst (onmessage throws decodeAudioData currentTime msg s) = Returned \<and>
         calls s' = calls s @ [HostOnMessage msg, CreateBufferSource sourceNode,
           ConnectDestination sourceNode, SourceStart sourceNode startAt] \<and>
         nextStartTime s' = double_add startAt d \<and>
         sources s' = set_add sourceNode (sources s) \<and>
         (nextStartTime s \<le> currentTime \<longrightarrow> startAt = currentTime))"
proof -
  from assms(1) obtain b64': "base64Audio msg = Inr (Some b64)" "b64 \<noteq> []"
    by (auto simp: awaited_def split: sum.splits option.splits if_splits)
  have arrive: "onmessage_arrive throws currentTime msg s =
      (Returned, s\<lparr>calls := calls s @ [HostOnMessage msg],
         nextStartTime := max (nextStartTime s) currentTime\<rparr>)"
    using b64' assms(3) by (simp add: onmessage_arrive_def invoke_def)
  have resume: "\<And>r. onmessage_resume throws decodeAudioData b64 r =
      (Returned, r\<lparr>calls := calls r @ [CreateBufferSource \<lparr>node_id = fresh r, buffer_duration = d\<rparr>,
           ConnectDestination \<lparr>node_id = fresh r, buffer_duration = d\<rparr>,
           SourceStart \<lparr>node_id = fresh r, buffer_duration = d\<rparr> (nextStartTime r)],
         fresh := Suc (fresh r),
         nextStartTime := double_add (nextStartTime r) d,
         sources := set_add \<lparr>node_id = fresh r, buffer_duration = d\<rparr> (sources r)\<rparr>)"
    using assms(2,3) by (simp add: onmessage_resume_def schedule_def invoke_def assign_def Let_def)
  have whole: "onmessage throws decodeAudioData currentTime msg s =
      onmessage_resume throws decodeAudioData b64 (snd (onmessage_arrive throws currentTime msg s))"
    using assms(1) by (simp add: onmessage_split arrive)
  show ?thesis
    unfolding whole by (simp add: arrive resume Let_def)
qed

text \<open>The theorem at the first audio message of a session, arriving at clock time 1.\<close>

theorem onmessage_start_time_witness:
  "awaited (audio_message ''AAAA'') = Some ''AAAA'' \<and>
   demo_decode ''AAAA'' = Some 1 \<and> (\<forall>c. \<not> no_faults c) \<and>
   nextStartTime opened \<le> 1 \<and>
   nextStartTime (snd (onmessage_arrive no_faults 1 (audio_message ''AAAA'') opened)) = 1 \<and>
   calls (snd (onmessage no_faults demo_decode 1 (audio_message ''AAAA'') opened)) =
     calls opened @ [HostOnMessage (audio_message ''AAAA''),
       CreateBufferSource \<lparr>node_id = 4, buffer_duration = 1\<rparr>,
       ConnectDestination \<lparr>node_id = 4, buffer_duration = 1\<rparr>,
       SourceStart \<lparr>node_id = 4, buffer_duration = 1\<rparr> 1] \<and>
   nextStartTime (snd (onmessage no_faults demo_decode 1 (audio_message ''AAAA'') opened)) = 2"
proof -
  have h1: "awaited (audio_message ''AAAA'') = Some ''AAAA''"
    by (simp add: awaited_def audio_message_def)
  have h3: "demo_decode ''AAAA'' = Some 1" by (simp add: demo_decode_def)
  have h4: "\<forall>c. \<not> no_faults c" by (simp add: no_faults_def)
  have h5: "nextStartTime opened \<le> 1" "nextStartTime opened = 0" "fresh opened = 4"
    by (simp_all add: opened_eq)
  have sum: "double_add 1 1 = 2" by (simp add: double_add_def double_round_2)
  from onmessage_start_time [where msg = "audio_message ''AAAA''" and ?b64.0 = "''AAAA''"
      and decodeAudioData = demo_decode and d = 1 and throws = no_faults and s = opened
      and currentTime = 1 and r = opened, OF h1 h3 h4] h5 sum
  show ?thesis using h1 h3 h4 by (simp add: Let_def)
qed

text \<open>
  Claim C5 as stated fails when a handler waits for its decode. A message arrives in the open
  session at clock time 1 with the cursor at 0; a second message arrives at clock time 3/2
  before the first is decoded; the first segment then starts at 3/2, not at
  \<open>max 0 1 = 1\<close>.
\<close>

theorem onmessage_overtaken_counterexample:
  "awaited (audio_message ''AAAA'') = Some ''AAAA'' \<and>
   nextStartTime opened = 0 \<and>
   overtaken_segments = [(3 / 2, 1)] \<and>
   max (nextStartTime opened) 1 \<noteq> fst (overtaken_segments ! 0)"
proof -
  have e: "overtaken_segments = [(3 / 2, 1)]"
    by (simp add: overtaken_segments_def opened_eq onmessage_arrive_def onmessage_resume_def
        schedule_def invoke_def assign_def no_faults_def audio_message_def demo_decode_def
        set_add_def Let_def)
  show ?thesis unfolding e by (simp add: awaited_def audio_message_def opened_eq)
qed

text \<open>
  Claim C9. A message that carries no audio payload (no server content, no model turn, no
  parts, no inline data, no data, or an empty string) leaves \<open>nextStartTime\<close> and the
  \<open>sources\<close> set as they were; the only call the handler makes is the host's
  \<^verbatim>\<open>onMessage\<close> callback, recorded unless the callback itself throws.
\<close>

theorem onmessage_without_audio:
  assumes "\<not> carries_audio msg"
  shows "nextStartTime (snd (onmessage throws decodeAudioData currentTime msg s)) = nextStartTime s \<and>
     sources (snd (onmessage throws decodeAudioData currentTime msg s)) = sources s \<and>
     calls (snd (onmessage throws decodeAudioData currentTime msg s)) =
       calls s @ (if throws (HostOnMessage msg) then [] else [HostOnMessage msg])"
  using assms
  by (auto simp: carries_audio_def onmessage_def invoke_def split: sum.splits option.splits)

text \<open>The theorem at a message without server content, received while two segments play.\<close>

theorem onmessage_without_audio_witness:
  "\<not> carries_audio (LiveServerMessage None) \<and>
   nextStartTime (snd (onmessage no_faults demo_decode 5 (LiveServerMessage None) playing)) = 4 \<and>
   sources (snd (onmessage no_faults demo_decode 5 (LiveServerMessage None) playing)) = sources playing \<and>
   calls (snd (onmessage no_faults demo_decode 5 (LiveServerMessage None) playing)) =
     calls playing @ [HostOnMessage (LiveServerMessage None)]"
proof -
  have h: "\<not> carries_audio (LiveServerMessage None)" by (simp add: carries_audio_def)
  have n: "nextStartTime playing = 4" by (simp add: playing_eq)
  from onmessage_without_audio [OF h, of no_faults demo_decode 5 playing] h n
  show ?thesis by (simp add: no_faults_def)
qed

section \<open>Properties of the session lifecycle\<close>

text \<open>
  Claim C3, as the code has it. The transport's \<^verbatim>\<open>onerror\<close> is the host's
  \<^verbatim>\<open>onError\<close> callback and nothing else: a transport error changes no variable of the
  module and makes no call but that callback. No teardown runs; the session handle, the capture
  stream, the processing node and both contexts stay as they were.
\<close>

theorem onerror_only_notifies:
  "variables (snd (onerror throws e s)) = variables s \<and>
   calls (snd (onerror throws e s)) = calls s @ (if throws (HostOnError e) then [] else [HostOnError e])"
  by (simp add: onerror_def invoke_def variables_def)

text \<open>The theorem at an error in the open session.\<close>

theorem onerror_only_notifies_witness:
  "variables (snd (onerror no_faults ''socket failed'' opened)) = variables opened \<and>
   calls (snd (onerror no_faults ''socket failed'' opened)) = calls opened @ [HostOnError ''socket failed'']"
  using onerror_only_notifies [of no_faults "''socket failed''" opened]
  by (simp add: no_faults_def)

text \<open>
  Claim C3 as stated fails: after a transport error in the open session the handle is still
  held, the state is not idle, and neither the transport, the capture track nor a context has
  been released.
\<close>

theorem onerror_no_teardown_counterexample:
  "liveSession (snd (onerror no_faults ''socket failed'' opened)) = Some 2 \<and>
   mediaStream (snd (onerror no_faults ''socket failed'' opened)) = Some [7] \<and>
   \<not> idle (snd (onerror no_faults ''socket failed'' opened)) \<and>
   SessionClose 2 \<notin> set (calls (snd (onerror no_faults ''socket failed'' opened))) \<and>
   TrackStop 7 \<notin> set (calls (snd (onerror no_faults ''socket failed'' opened))) \<and>
   ContextClose 0 \<notin> set (calls (snd (onerror no_faults ''socket failed'' opened))) \<and>
   ContextClose 1 \<notin> set (calls (snd (onerror no_faults ''socket failed'' opened)))"
  by (simp add: onerror_def invoke_def no_faults_def opened_eq idle_def)

text \<open>
  Claim C4, as the code has it. \<^verbatim>\<open>connectLive\<close> has no check for an open session.
  Called while a session is open (with the client built or a key configured, and no call
  throwing) it returns normally, stores two new audio contexts in place of the old ones and
  starts a further connection; the session handle, the capture stream, the processing node,
  the cursor and the sources are left as they were.
\<close>

theorem connectLive_not_guarded:
  assumes "liveSession s = Some session" and "ai s \<or> api_key" and "\<forall>c. \<not> throws c"
  shows "let s' = snd (connectLive throws api_key s) in
     fst (connectLive throws api_key s) = Returned \<and>
     liveSession s' = Some session \<and> mediaStream s' = mediaStream s \<and>
     scriptProcessor s' = scriptProcessor s \<and> nextStartTime s' = nextStartTime s \<and>
     sources s' = sources s \<and>
     inputAudioContext s' = Some (fresh s) \<and> outputAudioContext s' = Some (Suc (fresh s)) \<and>
     calls s' = calls s @ [NewAudioContext (fresh s) 16000, NewAudioContext (Suc (fresh s)) 24000,
       LiveConnect (Suc (Suc (fresh s)))]"
  using assms by (auto simp: connectLive_def getAi_def invoke_def assign_def Let_def)

text \<open>The theorem at the open session.\<close>

theorem connectLive_not_guarded_witness:
  "liveSession opened = Some 2 \<and> (ai opened \<or> True) \<and> (\<forall>c. \<not> no_faults c) \<and>
   fst (connectLive no_faults True opened) = Returned \<and>
   liveSession (snd (connectLive no_faults True opened)) = Some 2 \<and>
   inputAudioContext (snd (connectLive no_faults True opened)) = Some 4 \<and>
   outputAudioContext (snd (connectLive no_faults True opened)) = Some 5"
proof -
  have h1: "liveSession opened = Some 2" by (simp add: opened_eq)
  have h2: "ai opened \<or> True" by simp
  have h3: "\<forall>c. \<not> no_faults c" by (simp add: no_faults_def)
  have f: "fresh opened = 4" by (simp add: opened_eq)
  from connectLive_not_guarded [where s = opened and session = 2 and api_key = True
      and throws = no_faults, OF h1 h2 h3] f h1 h3 show ?thesis
    by (simp add: Let_def)
qed

text \<open>
  Claim C4 as stated fails: a second \<^verbatim>\<open>connectLive\<close> in the open session returns
  normally and replaces the input context; once the second connection opens, its handle
  replaces the first, which was never closed.
\<close>

theorem connectLive_twice_counterexample:
  "liveSession opened = Some 2 \<and>
   fst (connectLive no_faults True opened) = Returned \<and>
   inputAudioContext opened = Some 0 \<and>
   inputAudioContext (snd (connectLive no_faults True opened)) = Some 4 \<and>
   liveSession (run no_faults demo_encode demo_decode [ConnectLive True, OnOpen 6 [8]] opened) = Some 6 \<and>
   SessionClose 2 \<notin> set (calls (run no_faults demo_encode demo_decode [ConnectLive True, OnOpen 6 [8]] opened))"
  by (simp add: connectLive_def onopen_def getAi_def invoke_def assign_def no_faults_def opened_eq
      Let_def)

text \<open>
  Claim C7, as the code has it. \<^verbatim>\<open>closeLiveSession\<close> returns normally exactly when
  none of its release calls throws; then it has made all of them in order (close the
  transport, stop the capture tracks, disconnect the processing node, close both contexts, stop
  every registered source), the session handle is null, the \<open>sources\<close> set is empty and
  \<open>nextStartTime\<close> is zero. In every case the releases made are those before the first
  that throws; when one throws, the \<open>sources\<close> set is not cleared and the cursor is not
  reset.
\<close>

theorem closeLiveSession_releases_all:
  "(fst (closeLiveSession throws s) = Returned \<longleftrightarrow> (\<forall>c \<in> set (releases s). \<not> throws c)) \<and>
   ((\<forall>c \<in> set (releases s). \<not> throws c) \<longrightarrow>
      closeLiveSession throws s =
        (Returned, s\<lparr>liveSession := None, sources := [], nextStartTime := 0,
           calls := calls s @ releases s\<rparr>)) \<and>
   calls (snd (closeLiveSession throws s)) = calls s @ takeWhile (\<lambda>c. \<not> throws c) (releases s) \<and>
   (fst (closeLiveSession throws s) \<noteq> Returned \<longrightarrow>
      sources (snd (closeLiveSession throws s)) = sources s \<and>
      nextStartTime (snd (closeLiveSession throws s)) = nextStartTime s)"
  using close_returned_iff [of throws s] close_no_throw [of s throws]
    close_calls_prefix [of throws s] close_aborted [of throws s] by blast

text \<open>The theorem at the teardown of a session with two segments playing.\<close>

theorem closeLiveSession_releases_all_witness:
  "fst (closeLiveSession no_faults playing) = Returned \<and>
   nextStartTime (snd (closeLiveSession no_faults playing)) = 0 \<and>
   sources (snd (closeLiveSession no_faults playing)) = [] \<and>
   drop (length (calls playing)) (calls (snd (closeLiveSession no_faults playing))) =
     [SessionClose 2, TrackStop 7, ProcessorDisconnect 3, ContextClose 0, ContextClose 1,
      SourceStop \<lparr>node_id = 4, buffer_duration = 1\<rparr>,
      SourceStop \<lparr>node_id = 5, buffer_duration = 2\<rparr>]"
proof -
  have h: "\<forall>c \<in> set (releases playing). \<not> no_faults c" by (simp add: no_faults_def)
  have r: "releases playing = [SessionClose 2, TrackStop 7, ProcessorDisconnect 3, ContextClose 0, ContextClose 1,
      SourceStop \<lparr>node_id = 4, buffer_duration = 1\<rparr>,
      SourceStop \<lparr>node_id = 5, buffer_duration = 2\<rparr>]"
    by (simp add: releases_def playing_eq)
  from closeLiveSession_releases_all [of no_faults playing] h
  have "closeLiveSession no_faults playing =
        (Returned, playing\<lparr>liveSession := None, sources := [], nextStartTime := 0,
           calls := calls playing @ releases playing\<rparr>)" by blast
  with h r show ?thesis by simp
qed

text \<open>
  Claim C7 as stated fails: when closing the transport throws, the teardown ends there. No
  later release is made, the sources stay registered and the cursor keeps its value.
\<close>

theorem closeLiveSession_abort_counterexample:
  "fst (closeLiveSession session_close_throws playing) = Threw (CallFailed (SessionClose 2)) \<and>
   snd (closeLiveSession session_close_throws playing) = playing \<and>
   sources playing \<noteq> [] \<and> nextStartTime playing \<noteq> 0 \<and> liveSession playing \<noteq> None"
  by (simp add: closeLiveSession_def optionally_def invoke_def session_close_throws_def playing_eq)




lemma fire_closed:
  assumes "liveSession s = None" "\<not> is_open e"
  shows "liveSession (fire throws enc dec e s) = None \<and>
     filter is_send (calls (fire throws enc dec e s)) = filter is_send (calls s)"
proof (cases e)
  case (ConnectLive k)
  with connectLive_effect [of throws k s] assms show ?thesis by auto
next
  case (OnOpen h ts)
  with assms show ?thesis by simp
next
  case (OnAudioProcess xs)
  with onaudioprocess_effect [of throws enc xs s] assms show ?thesis by auto
next
  case (OnMessage clock msg)
  with onmessage_effect [of throws dec clock msg s] assms show ?thesis by auto
next
  case (OnMessageArrive clock msg)
  with onmessage_arrive_effect [of throws clock msg s] assms show ?thesis by auto
next
  case (OnMessageResume b64)
  with onmessage_resume_effect [of throws dec b64 s] assms show ?thesis by auto
next
  case (OnEnded n)
  with assms show ?thesis by (simp add: ended_def)
next
  case OnClose
  with assms show ?thesis by (simp add: onclose_def invoke_def)
next
  case (OnError x)
  with assms show ?thesis by (simp add: onerror_def invoke_def)
next
  case CloseLiveSession
  with closeLiveSession_effect [of throws s] assms show ?thesis by auto
qed

lemma run_closed:
  "liveSession s = None \<Longrightarrow> \<forall>e \<in> set evs. \<not> is_open e \<Longrightarrow>
     liveSession (run throws enc dec evs s) = None \<and>
     filter is_send (calls (run throws enc dec evs s)) = filter is_send (calls s)"
proof (induction evs arbitrary: s)
  case Nil
  then show ?case by simp
next
  case (Cons e es)
  from Cons.prems have "\<not> is_open e" and es: "\<forall>e \<in> set es. \<not> is_open e" by simp_all
  from fire_closed [OF Cons.prems(1) this(1), of throws enc dec]
  have f: "liveSession (fire throws enc dec e s) = None"
    "filter is_send (calls (fire throws enc dec e s)) = filter is_send (calls s)" by simp_all
  from Cons.IH [OF f(1) es] f(2) show ?case by simp
qed

text \<open>
  Claim C10. After \<^verbatim>\<open>closeLiveSession\<close> has returned the session handle is null, and
  whatever events follow, as long as no connection opens, no frame is sent: the frames sent
  are those sent before the teardown. A capture callback that fires then skips
  \<^verbatim>\<open>sendRealtimeInput\<close>.
\<close>

theorem no_send_after_close:
  assumes "fst (closeLiveSession throws s) = Returned"
    and "\<forall>e \<in> set evs. \<not> is_open e"
  shows "liveSession (snd (closeLiveSession throws s)) = None \<and>
     filter is_send (calls (run throws' encode decodeAudioData evs (snd (closeLiveSession throws s)))) =
       filter is_send (calls s)"
proof -
  from assms(1) have "\<forall>c \<in> set (releases s). \<not> throws c" by (simp add: close_returned_iff)
  then have c: "closeLiveSession throws s =
      (Returned, s\<lparr>liveSession := None, sources := [], nextStartTime := 0,
         calls := calls s @ releases s\<rparr>)" by (rule close_no_throw)
  then have n: "liveSession (snd (closeLiveSession throws s)) = None" by simp
  from closeLiveSession_effect [of throws s]
  have "filter is_send (calls (snd (closeLiveSession throws s))) = filter is_send (calls s)" by auto
  with run_closed [OF n assms(2), of throws' encode decodeAudioData] n show ?thesis by simp
qed

text \<open>
  The theorem at a teardown of the playing session followed by two capture callbacks and an
  inbound message; before the teardown a capture callback sends a frame.
\<close>

theorem no_send_after_close_witness:
  "fst (closeLiveSession no_faults playing) = Returned \<and>
   filter is_send (calls (run no_faults demo_encode demo_decode [OnAudioProcess [1 / 2]] playing)) =
     [SendRealtimeInput 2 (pcmBlob demo_encode [1 / 2])] \<and>
   filter is_send (calls (run no_faults demo_encode demo_decode
      [OnAudioProcess [1 / 2], OnMessage 5 (audio_message ''AAAA''), OnAudioProcess [0]]
      (snd (closeLiveSession no_faults playing)))) = []"
proof -
  have "\<forall>c \<in> set (releases playing). \<not> no_faults c" by (simp add: no_faults_def)
  then have h1: "fst (closeLiveSession no_faults playing) = Returned" by (simp add: close_returned_iff)
  have h2: "\<forall>e \<in> set [OnAudioProcess [1 / 2], OnMessage 5 (audio_message ''AAAA''), OnAudioProcess [0]].
      \<not> is_open e" by simp
  have before: "filter is_send (calls (run no_faults demo_encode demo_decode [OnAudioProcess [1 / 2]] playing)) =
     [SendRealtimeInput 2 (pcmBlob demo_encode [1 / 2])]"
    by (simp add: onaudioprocess_def invoke_def no_faults_def playing_eq opened_eq)
  have none: "filter is_send (calls playing) = []" by (simp add: playing_eq opened_eq)
  from no_send_after_close [OF h1 h2, of no_faults demo_encode demo_decode] none h1 h2 before
  show ?thesis by simp
qed

end
